theory Spec2Isabelle
  imports Complex_Main "HOL-Library.Word" "HOL-Library.Multiset"
begin

unbundle bit_operations_syntax

section \<open>EEPROM wear-leveling (EEPROMWearLeveling.cpp)\<close>

subsection \<open>Storage and configuration\<close>

text \<open>
  The EEPROM is a byte-addressed store. Addresses are small natural numbers (the highest
  address the code touches is 155), so no address computation overflows its
  \<open>uint16_t\<close>; an erased cell holds \<open>0xFF\<close>.
\<close>

type_synonym eeprom = "nat \<Rightarrow> 8 word"

definition erased :: eeprom where
  "erased = (\<lambda>_. 0xFF)"

text \<open>
  The configuration macros, the enumeration and the slot descriptor of
  \<open>EEPROMWearLeveling.h\<close> (the header is among the sources in the file
  \<open>src/src/GpsStabilityFilter.h\<close>, after the filter's own header), and the table
  \<open>slotConfig\<close> of \<open>EEPROMWearLeveling.cpp\<close>. The fields of \<open>WLSlotInfo\<close> are a
  \<open>uint16_t\<close> and two \<open>uint8_t\<close>; the address of a slot is computed in \<open>int\<close> and is
  at most \<open>60 + 255 * 6\<close>, so it fits its \<open>uint16_t\<close> and the fields are natural numbers
  here.
\<close>

definition WL_NUM_SLOTS :: nat where
  "WL_NUM_SLOTS = 16"

definition WL_SEQUENCE_SIZE :: nat where
  "WL_SEQUENCE_SIZE = 2"

definition WL_INVALID_SEQUENCE :: "16 word" where
  "WL_INVALID_SEQUENCE = 0"

definition WL_TIME_FORMAT_START_ADDR :: nat where
  "WL_TIME_FORMAT_START_ADDR = 10"

definition WL_POWER_CYCLE_START_ADDR :: nat where
  "WL_POWER_CYCLE_START_ADDR = 60"

definition WL_TIME_FORMAT_DATA_SIZE :: nat where
  "WL_TIME_FORMAT_DATA_SIZE = 1"

definition WL_POWER_CYCLE_DATA_SIZE :: nat where
  "WL_POWER_CYCLE_DATA_SIZE = 4"

definition WL_TIME_FORMAT_SLOT_SIZE :: nat where
  "WL_TIME_FORMAT_SLOT_SIZE = WL_SEQUENCE_SIZE + WL_TIME_FORMAT_DATA_SIZE"

definition WL_POWER_CYCLE_SLOT_SIZE :: nat where
  "WL_POWER_CYCLE_SLOT_SIZE = WL_SEQUENCE_SIZE + WL_POWER_CYCLE_DATA_SIZE"

datatype WLDataType = WL_TIME_FORMAT | WL_POWER_CYCLE

record WLSlotInfo =
  startAddr :: nat
  slotSize :: nat
  dataSize :: nat

fun slotConfig :: "WLDataType \<Rightarrow> WLSlotInfo" where
  "slotConfig WL_TIME_FORMAT =
     \<lparr>startAddr = WL_TIME_FORMAT_START_ADDR, slotSize = WL_TIME_FORMAT_SLOT_SIZE,
      dataSize = WL_TIME_FORMAT_DATA_SIZE\<rparr>"
| "slotConfig WL_POWER_CYCLE =
     \<lparr>startAddr = WL_POWER_CYCLE_START_ADDR, slotSize = WL_POWER_CYCLE_SLOT_SIZE,
      dataSize = WL_POWER_CYCLE_DATA_SIZE\<rparr>"

declare slotConfig.simps [simp del]

text \<open>
  \<open>EEPROM.get\<close> and \<open>EEPROM.put\<close> on a \<open>uint16_t\<close> move the two bytes of the value,
  low byte at the lower address (the AVR is little-endian). \<open>EEPROM.put\<close> skips a
  byte that already has the value to store, which leaves the same contents.
\<close>

definition EEPROM_get16 :: "eeprom \<Rightarrow> nat \<Rightarrow> 16 word" where
  "EEPROM_get16 ee addr = word_cat (ee (addr + 1)) (ee addr)"

definition EEPROM_put16 :: "nat \<Rightarrow> 16 word \<Rightarrow> eeprom \<Rightarrow> eeprom" where
  "EEPROM_put16 addr v ee = (ee(addr := ucast v))(addr + 1 := ucast (drop_bit 8 v))"

subsection \<open>Instance state\<close>

text \<open>
  The two arrays of the class, indexed by data type. A slot index is a \<open>uint8_t\<close> in
  the source; every slot index the code computes is below \<open>WL_NUM_SLOTS\<close> (the next
  slot is computed in \<open>int\<close> and reduced modulo \<open>WL_NUM_SLOTS\<close>), so slot indices are
  natural numbers here. The sequence numbers are \<open>uint16_t\<close> and do wrap around.
\<close>

record EEPROMWearLeveling =
  nextSequence :: "WLDataType \<Rightarrow> 16 word"
  currentSlot :: "WLDataType \<Rightarrow> nat"

text \<open>The constructor: sequence 1 and slot 0 for both data types.\<close>

definition EEPROMWearLeveling_new :: EEPROMWearLeveling where
  "EEPROMWearLeveling_new = \<lparr>nextSequence = (\<lambda>_. 1), currentSlot = (\<lambda>_. 0)\<rparr>"

subsection \<open>Private helpers\<close>

definition getSlotAddress :: "WLDataType \<Rightarrow> nat \<Rightarrow> nat" where
  "getSlotAddress dataType slotIndex =
     startAddr (slotConfig dataType) + slotIndex * slotSize (slotConfig dataType)"

definition readSlotSequence :: "WLDataType \<Rightarrow> nat \<Rightarrow> eeprom \<Rightarrow> 16 word" where
  "readSlotSequence dataType slotIndex ee =
     (if slotIndex \<ge> WL_NUM_SLOTS then WL_INVALID_SEQUENCE
      else let sequence = EEPROM_get16 ee (getSlotAddress dataType slotIndex)
           in if sequence = 0xFFFF then WL_INVALID_SEQUENCE else sequence)"

text \<open>
  The byte loop of \<open>writeSlot\<close>: byte \<open>i\<close> of the value goes to \<open>addr + i\<close>, for
  \<open>i\<close> from the given index up to \<open>dataSize\<close>.
\<close>

function writeSlot_loop :: "nat \<Rightarrow> nat \<Rightarrow> nat \<Rightarrow> 8 word list \<Rightarrow> eeprom \<Rightarrow> eeprom" where
  "writeSlot_loop base i n data ee =
     (if i < n then writeSlot_loop base (Suc i) n data (ee(base + i := data ! i)) else ee)"
  by pat_completeness auto
termination
  by (relation "measure (\<lambda>(base, i, n, data, ee). n - i)") auto

declare writeSlot_loop.simps [simp del]

text \<open>
  The value is passed as the list of its bytes (the callers pass the address of a local
  variable, never a null pointer, and the variable has \<open>dataSize\<close> bytes).
\<close>

definition writeSlot :: "WLDataType \<Rightarrow> nat \<Rightarrow> 16 word \<Rightarrow> 8 word list \<Rightarrow> eeprom \<Rightarrow> eeprom" where
  "writeSlot dataType slotIndex sequence data ee =
     (if slotIndex \<ge> WL_NUM_SLOTS then ee
      else let addr = getSlotAddress dataType slotIndex
           in writeSlot_loop (addr + WL_SEQUENCE_SIZE) 0 (dataSize (slotConfig dataType)) data
                (EEPROM_put16 addr sequence ee))"

function readSlot_loop :: "nat \<Rightarrow> nat \<Rightarrow> nat \<Rightarrow> eeprom \<Rightarrow> 8 word list" where
  "readSlot_loop base i n ee =
     (if i < n then ee (base + i) # readSlot_loop base (Suc i) n ee else [])"
  by pat_completeness auto
termination
  by (relation "measure (\<lambda>(base, i, n, ee). n - i)") auto

declare readSlot_loop.simps [simp del]

text \<open>\<open>readSlot\<close> returns \<open>None\<close> for \<open>false\<close>, and the bytes read for \<open>true\<close>.\<close>

definition readSlot :: "WLDataType \<Rightarrow> nat \<Rightarrow> eeprom \<Rightarrow> 8 word list option" where
  "readSlot dataType slotIndex ee =
     (if slotIndex \<ge> WL_NUM_SLOTS then None
      else if readSlotSequence dataType slotIndex ee = WL_INVALID_SEQUENCE then None
      else Some (readSlot_loop (getSlotAddress dataType slotIndex + WL_SEQUENCE_SIZE) 0
                   (dataSize (slotConfig dataType)) ee))"

text \<open>
  The scan of \<open>findLatestSlot\<close>, from slot index \<open>slot\<close> on, with the running
  \<open>highestSequence\<close> and \<open>latestSlot\<close>.
\<close>

function findLatestSlot_loop :: "WLDataType \<Rightarrow> eeprom \<Rightarrow> nat \<Rightarrow> 16 word \<Rightarrow> nat \<Rightarrow> nat" where
  "findLatestSlot_loop dataType ee slot highestSequence latestSlot =
     (if slot < WL_NUM_SLOTS then
        (let sequence = readSlotSequence dataType slot ee
         in if sequence \<noteq> WL_INVALID_SEQUENCE \<and>
               (highestSequence = WL_INVALID_SEQUENCE \<or>
                sequence > highestSequence \<or>
                (highestSequence > 0xF000 \<and> sequence < 0x1000))
            then findLatestSlot_loop dataType ee (Suc slot) sequence slot
            else findLatestSlot_loop dataType ee (Suc slot) highestSequence latestSlot)
      else latestSlot)"
  by pat_completeness auto
termination
  by (relation "measure (\<lambda>(dataType, ee, slot, highestSequence, latestSlot). WL_NUM_SLOTS - slot)")
     auto

declare findLatestSlot_loop.simps [simp del]

definition findLatestSlot :: "WLDataType \<Rightarrow> eeprom \<Rightarrow> nat" where
  "findLatestSlot dataType ee = findLatestSlot_loop dataType ee 0 WL_INVALID_SEQUENCE 0"

subsection \<open>Public operations\<close>

text \<open>One iteration of the loop of \<open>begin()\<close>, for one data type.\<close>

definition begin_type :: "WLDataType \<Rightarrow> eeprom \<Rightarrow> EEPROMWearLeveling \<Rightarrow> EEPROMWearLeveling" where
  "begin_type dataType ee wl =
     (let latestSlot = findLatestSlot dataType ee;
          latestSequence = readSlotSequence dataType latestSlot ee
      in wl\<lparr>currentSlot := (currentSlot wl)(dataType := latestSlot),
            nextSequence := (nextSequence wl)(dataType :=
              (if latestSequence = WL_INVALID_SEQUENCE then 1
               else if latestSequence = 0xFFFF then 1 else latestSequence + 1))\<rparr>)"

text \<open>\<open>begin()\<close>; the name is suffixed because \<open>begin\<close> is a keyword of Isabelle.\<close>

definition begin_wl :: "eeprom \<Rightarrow> EEPROMWearLeveling \<Rightarrow> EEPROMWearLeveling" where
  "begin_wl ee wl = begin_type WL_POWER_CYCLE ee (begin_type WL_TIME_FORMAT ee wl)"

text \<open>
  The shared body of \<open>writeTimeFormat\<close> and \<open>writePowerCycleCount\<close> after the input
  check: advance the slot, write the slot, increment the sequence number.
\<close>

definition writeNext :: "WLDataType \<Rightarrow> 8 word list \<Rightarrow> EEPROMWearLeveling \<times> eeprom
    \<Rightarrow> EEPROMWearLeveling \<times> eeprom" where
  "writeNext dataType data st =
     (let wl = fst st; ee = snd st;
          slot = (currentSlot wl dataType + 1) mod WL_NUM_SLOTS;
          ee' = writeSlot dataType slot (nextSequence wl dataType) data ee;
          next = nextSequence wl dataType + 1;
          next' = (if next = WL_INVALID_SEQUENCE \<or> next = 0xFFFF then 1 else next)
      in (wl\<lparr>currentSlot := (currentSlot wl)(dataType := slot),
              nextSequence := (nextSequence wl)(dataType := next')\<rparr>, ee'))"

definition readTimeFormat :: "eeprom \<Rightarrow> 8 word" where
  "readTimeFormat ee =
     (let latestSlot = findLatestSlot WL_TIME_FORMAT ee
      in case readSlot WL_TIME_FORMAT latestSlot ee of
           Some data \<Rightarrow> (let format = data ! 0 in if format = 0 \<or> format = 1 then format else 0)
         | None \<Rightarrow> 0)"

definition writeTimeFormat :: "8 word \<Rightarrow> EEPROMWearLeveling \<times> eeprom
    \<Rightarrow> EEPROMWearLeveling \<times> eeprom" where
  "writeTimeFormat format st =
     (if format \<noteq> 0 \<and> format \<noteq> 1 then st else writeNext WL_TIME_FORMAT [format] st)"

text \<open>
  An \<open>unsigned long\<close> has 32 bits on the AVR; its bytes in memory, lowest first.
\<close>

definition bytes_of_ulong :: "32 word \<Rightarrow> 8 word list" where
  "bytes_of_ulong c = [ucast c, ucast (drop_bit 8 c), ucast (drop_bit 16 c), ucast (drop_bit 24 c)]"

definition ulong_of_bytes :: "8 word list \<Rightarrow> 32 word" where
  "ulong_of_bytes data =
     ucast (data ! 0) OR push_bit 8 (ucast (data ! 1)) OR push_bit 16 (ucast (data ! 2))
       OR push_bit 24 (ucast (data ! 3))"

definition readPowerCycleCount :: "eeprom \<Rightarrow> 32 word" where
  "readPowerCycleCount ee =
     (let latestSlot = findLatestSlot WL_POWER_CYCLE ee
      in case readSlot WL_POWER_CYCLE latestSlot ee of
           Some data \<Rightarrow> (let cnt = ulong_of_bytes data in if cnt < 0xFFFFFF00 then cnt else 0)
         | None \<Rightarrow> 0)"

definition writePowerCycleCount :: "32 word \<Rightarrow> EEPROMWearLeveling \<times> eeprom
    \<Rightarrow> EEPROMWearLeveling \<times> eeprom" where
  "writePowerCycleCount cnt st = writeNext WL_POWER_CYCLE (bytes_of_ulong cnt) st"

subsection \<open>Sequences of writes, and predicates on the storage\<close>

text \<open>Calling a writer once for each value of a list, in order.\<close>

fun writeTimeFormats :: "8 word list \<Rightarrow> EEPROMWearLeveling \<times> eeprom
    \<Rightarrow> EEPROMWearLeveling \<times> eeprom" where
  "writeTimeFormats [] st = st"
| "writeTimeFormats (v # vs) st = writeTimeFormats vs (writeTimeFormat v st)"

fun writePowerCycleCounts :: "32 word list \<Rightarrow> EEPROMWearLeveling \<times> eeprom
    \<Rightarrow> EEPROMWearLeveling \<times> eeprom" where
  "writePowerCycleCounts [] st = st"
| "writePowerCycleCounts (v # vs) st = writePowerCycleCounts vs (writePowerCycleCount v st)"

fun writeNexts :: "WLDataType \<Rightarrow> 8 word list list \<Rightarrow> EEPROMWearLeveling \<times> eeprom
    \<Rightarrow> EEPROMWearLeveling \<times> eeprom" where
  "writeNexts dataType [] st = st"
| "writeNexts dataType (d # ds) st = writeNexts dataType ds (writeNext dataType d st)"

text \<open>Every slot of a data type reads as empty (sequence 0 or the erased pattern).\<close>

definition slots_empty :: "WLDataType \<Rightarrow> eeprom \<Rightarrow> bool" where
  "slots_empty dataType ee =
     list_all (\<lambda>slot. readSlotSequence dataType slot ee = WL_INVALID_SEQUENCE) [0..<WL_NUM_SLOTS]"

text \<open>
  The slots of a data type after \<open>m\<close> writes without wraparound that started on empty
  slots, the last of them into slot \<open>c\<close>: the slot \<open>d\<close> places before \<open>c\<close> in the
  rotation holds sequence \<open>m - d\<close>, or is still empty when fewer than \<open>d + 1\<close> writes
  have happened.
\<close>

definition slots_rotated :: "WLDataType \<Rightarrow> eeprom \<Rightarrow> nat \<Rightarrow> nat \<Rightarrow> bool" where
  "slots_rotated dataType ee c m =
     (c < WL_NUM_SLOTS \<and> m \<le> 0xFFFE \<and>
      list_all (\<lambda>slot. unat (readSlotSequence dataType slot ee) =
                  (let d = (c + WL_NUM_SLOTS - slot) mod WL_NUM_SLOTS
                   in if d < m then m - d else 0)) [0..<WL_NUM_SLOTS])"

text \<open>
  The instance agrees with such slots: its \<open>currentSlot\<close> is \<open>c\<close>, and its
  \<open>nextSequence\<close> is \<open>m + 1\<close> as long as that is below the erased pattern.
\<close>

definition store_inv :: "WLDataType \<Rightarrow> EEPROMWearLeveling \<times> eeprom \<Rightarrow> nat \<Rightarrow> nat \<Rightarrow> bool" where
  "store_inv dataType st c m =
     (slots_rotated dataType (snd st) c m \<and> currentSlot (fst st) dataType = c \<and>
      (if m < 0xFFFE then unat (nextSequence (fst st) dataType) = m + 1 else True))"

text \<open>The bytes of a slot as they are in the storage, with no check of the sequence.\<close>

definition rawSequence :: "WLDataType \<Rightarrow> nat \<Rightarrow> eeprom \<Rightarrow> 16 word" where
  "rawSequence dataType slotIndex ee = EEPROM_get16 ee (getSlotAddress dataType slotIndex)"

definition rawData :: "WLDataType \<Rightarrow> nat \<Rightarrow> eeprom \<Rightarrow> 8 word list" where
  "rawData dataType slotIndex ee =
     readSlot_loop (getSlotAddress dataType slotIndex + WL_SEQUENCE_SIZE) 0
       (dataSize (slotConfig dataType)) ee"

text \<open>The addresses of a slot.\<close>

definition slotAddrs :: "WLDataType \<Rightarrow> nat \<Rightarrow> nat set" where
  "slotAddrs dataType slotIndex =
     {getSlotAddress dataType slotIndex ..<
      getSlotAddress dataType slotIndex + slotSize (slotConfig dataType)}"

section \<open>GPS stability filter (GpsStabilityFilter.cpp)\<close>

text \<open>
  A \<open>float\<close> is modelled by the real number it denotes. The samples are finite
  (TinyGPS++ computes them from decimal digits), so comparison is the order of the reals.
  Addition and division round their exact result to binary32: 24 significant bits, to
  the nearest value and to the even one of two nearest, with the spacing \<open>2 ^ -149\<close>
  of the subnormal numbers below \<open>2 ^ -126\<close>. A result beyond the largest binary32
  value, which the code turns into an infinity, is outside this model; coordinates and
  altitudes are far from it.
\<close>

definition round_half_even :: "real \<Rightarrow> int" where
  "round_half_even q =
     (let f = \<lfloor>q\<rfloor>; r = q - of_int f
      in if r < 1 / 2 then f else if r > 1 / 2 then f + 1 else if even f then f else f + 1)"

text \<open>
  The binary exponent of a positive number \<open>a\<close>: the \<open>e\<close> with
  \<open>2 ^ e \<le> a < 2 ^ (e + 1)\<close>, searched upwards from 0 to 127 or downwards from -1
  to -126, where the subnormal range begins.
\<close>

fun float_exponent_up :: "nat \<Rightarrow> int \<Rightarrow> real \<Rightarrow> int" where
  "float_exponent_up 0 e a = e"
| "float_exponent_up (Suc k) e a =
     (if a < 2 powi (e + 1) then e else float_exponent_up k (e + 1) a)"

fun float_exponent_down :: "nat \<Rightarrow> int \<Rightarrow> real \<Rightarrow> int" where
  "float_exponent_down 0 e a = e"
| "float_exponent_down (Suc k) e a =
     (if 2 powi e \<le> a then e else float_exponent_down k (e - 1) a)"

definition float_exponent :: "real \<Rightarrow> int" where
  "float_exponent a =
     (if 1 \<le> a then float_exponent_up 127 0 a else float_exponent_down 125 (- 1) a)"

definition float_round :: "real \<Rightarrow> real" where
  "float_round x =
     (if x = 0 then 0
      else let ulp = 2 powi (float_exponent \<bar>x\<bar> - 23)
           in of_int (round_half_even (x / ulp)) * ulp)"

text \<open>The \<open>+\<close> and \<open>/\<close> of the source on \<open>float\<close> operands.\<close>

definition float_add :: "real \<Rightarrow> real \<Rightarrow> real" where
  "float_add x y = float_round (x + y)"

definition float_div :: "real \<Rightarrow> real \<Rightarrow> real" where
  "float_div x y = float_round (x / y)"

definition GPS_FILTER_WINDOW_SIZE :: nat where
  "GPS_FILTER_WINDOW_SIZE = 12"

definition GPS_FILTER_MIN_READINGS :: nat where
  "GPS_FILTER_MIN_READINGS = 3"

text \<open>
  What the filter reads of the GPS module at the moment of a call: \<open>location.isValid()\<close>,
  \<open>location.lat()\<close>, \<open>location.lng()\<close>, \<open>altitude.isValid()\<close> and
  \<open>altitude.feet()\<close>.
\<close>

record TinyGPSPlus =
  location_isValid :: bool
  location_lat :: real
  location_lng :: real
  altitude_isValid :: bool
  altitude_feet :: real

record GpsStabilityFilter =
  latReadings :: "real list"
  lonReadings :: "real list"
  altReadings :: "real list"
  currentIndex :: nat
  totalReadings :: nat

text \<open>
  The constructor. The filter object is a global of \<open>main.cpp\<close>, so its arrays are
  zero-initialised; each has \<open>GPS_FILTER_WINDOW_SIZE\<close> elements. The cursor and the
  fill counter are \<open>uint8_t\<close> values that never exceed \<open>GPS_FILTER_WINDOW_SIZE\<close>, so
  they are natural numbers here, and every array access of \<open>update\<close> is in range.
\<close>

definition GpsStabilityFilter_new :: GpsStabilityFilter where
  "GpsStabilityFilter_new =
     \<lparr>latReadings = replicate GPS_FILTER_WINDOW_SIZE 0,
      lonReadings = replicate GPS_FILTER_WINDOW_SIZE 0,
      altReadings = replicate GPS_FILTER_WINDOW_SIZE 0,
      currentIndex = 0, totalReadings = 0\<rparr>"

definition update :: "TinyGPSPlus \<Rightarrow> GpsStabilityFilter \<Rightarrow> GpsStabilityFilter" where
  "update gpsModule f =
     (if \<not> location_isValid gpsModule \<or> \<not> altitude_isValid gpsModule then f
      else f\<lparr>latReadings := (latReadings f)[currentIndex f := location_lat gpsModule],
             lonReadings := (lonReadings f)[currentIndex f := location_lng gpsModule],
             altReadings := (altReadings f)[currentIndex f := altitude_feet gpsModule],
             currentIndex := (currentIndex f + 1) mod GPS_FILTER_WINDOW_SIZE,
             totalReadings := (if totalReadings f < GPS_FILTER_WINDOW_SIZE
                               then totalReadings f + 1 else totalReadings f)\<rparr>)"

text \<open>
  \<open>sortFloatArray\<close>: the inner loop runs \<open>j\<close> up to \<open>n - i - 1\<close> and swaps
  neighbours that are out of order; the outer loop runs \<open>i\<close> up to \<open>n - 1\<close>. The
  bounds are computed in \<open>int\<close> in the source, so \<open>i < n - 1\<close> is \<open>i + 1 < n\<close>.
\<close>

function sortFloatArray_inner :: "real list \<Rightarrow> nat \<Rightarrow> nat \<Rightarrow> real list" where
  "sortFloatArray_inner arr j bound =
     (if j < bound then
        sortFloatArray_inner
          (if arr ! j > arr ! (j + 1) then arr[j := arr ! (j + 1), j + 1 := arr ! j] else arr)
          (Suc j) bound
      else arr)"
  by pat_completeness auto
termination
  by (relation "measure (\<lambda>(arr, j, bound). bound - j)") auto

declare sortFloatArray_inner.simps [simp del]

function sortFloatArray_outer :: "real list \<Rightarrow> nat \<Rightarrow> nat \<Rightarrow> real list" where
  "sortFloatArray_outer arr i n =
     (if i + 1 < n then sortFloatArray_outer (sortFloatArray_inner arr 0 (n - i - 1)) (Suc i) n
      else arr)"
  by pat_completeness auto
termination
  by (relation "measure (\<lambda>(arr, i, n). n - i)") auto

declare sortFloatArray_outer.simps [simp del]

definition sortFloatArray :: "real list \<Rightarrow> nat \<Rightarrow> real list" where
  "sortFloatArray arr n = sortFloatArray_outer arr 0 n"

text \<open>
  The summing loop of the three getters: \<open>sum\<close> (here \<open>sm\<close>) and \<open>count\<close>
  (here \<open>cnt\<close>) over the indices from \<open>i\<close> up to \<open>endIndex\<close>; \<open>sum +=\<close> is a
  \<open>float\<close> addition.
\<close>

function sum_loop :: "real list \<Rightarrow> nat \<Rightarrow> nat \<Rightarrow> real \<Rightarrow> nat \<Rightarrow> real \<times> nat" where
  "sum_loop workingBuffer i endIndex sm cnt =
     (if i < endIndex
      then sum_loop workingBuffer (Suc i) endIndex (float_add sm (workingBuffer ! i)) (cnt + 1)
      else (sm, cnt))"
  by pat_completeness auto
termination
  by (relation "measure (\<lambda>(workingBuffer, i, endIndex, sm, cnt). endIndex - i)") auto

declare sum_loop.simps [simp del]

text \<open>
  The body the three getters share after their guard, on the readings of one channel.
  The working buffer is the copy of the first \<open>readingsToProcess\<close> readings; the rest of
  the C array is never read. In \<open>sum / count\<close> the count, at most 12, converts to
  \<open>float\<close> exactly and the division is a \<open>float\<close> division.
\<close>

definition filterReadings :: "real list \<Rightarrow> nat \<Rightarrow> real \<Rightarrow> real" where
  "filterReadings readings readingsToProcess raw =
     (let workingBuffer = sortFloatArray (take readingsToProcess readings) readingsToProcess;
          startIndex = (if readingsToProcess > 5 then readingsToProcess div 5 else 0);
          endIndex = (if readingsToProcess > 5 then readingsToProcess - startIndex
                      else readingsToProcess);
          r = sum_loop workingBuffer startIndex endIndex 0 0
      in if snd r > 0 then float_div (fst r) (real (snd r)) else raw)"

definition getFilteredLatitude :: "TinyGPSPlus \<Rightarrow> GpsStabilityFilter \<Rightarrow> real" where
  "getFilteredLatitude gpsModule f =
     (if totalReadings f < GPS_FILTER_MIN_READINGS \<or> \<not> location_isValid gpsModule
      then location_lat gpsModule
      else filterReadings (latReadings f) (totalReadings f) (location_lat gpsModule))"

definition getFilteredLongitude :: "TinyGPSPlus \<Rightarrow> GpsStabilityFilter \<Rightarrow> real" where
  "getFilteredLongitude gpsModule f =
     (if totalReadings f < GPS_FILTER_MIN_READINGS \<or> \<not> location_isValid gpsModule
      then location_lng gpsModule
      else filterReadings (lonReadings f) (totalReadings f) (location_lng gpsModule))"

definition getFilteredAltitude :: "TinyGPSPlus \<Rightarrow> GpsStabilityFilter \<Rightarrow> real" where
  "getFilteredAltitude gpsModule f =
     (if totalReadings f < GPS_FILTER_MIN_READINGS \<or> \<not> altitude_isValid gpsModule
      then altitude_feet gpsModule
      else filterReadings (altReadings f) (totalReadings f) (altitude_feet gpsModule))"

definition getTotalReadings :: "GpsStabilityFilter \<Rightarrow> nat" where
  "getTotalReadings f = totalReadings f"

text \<open>Calling \<open>update\<close> once for each reading of a list, in order.\<close>

fun updates :: "TinyGPSPlus list \<Rightarrow> GpsStabilityFilter \<Rightarrow> GpsStabilityFilter" where
  "updates [] f = f"
| "updates (g # gs) f = updates gs (update g f)"

text \<open>
  The filter after the valid readings \<open>gs\<close>, from a new filter: cursor and fill
  counter, and each of the last \<open>GPS_FILTER_WINDOW_SIZE\<close> readings in its cell.
\<close>

definition ring_inv :: "TinyGPSPlus list \<Rightarrow> GpsStabilityFilter \<Rightarrow> bool" where
  "ring_inv gs f \<longleftrightarrow>
     currentIndex f = length gs mod GPS_FILTER_WINDOW_SIZE \<and>
     totalReadings f = min (length gs) GPS_FILTER_WINDOW_SIZE \<and>
     length (latReadings f) = GPS_FILTER_WINDOW_SIZE \<and>
     length (lonReadings f) = GPS_FILTER_WINDOW_SIZE \<and>
     length (altReadings f) = GPS_FILTER_WINDOW_SIZE \<and>
     (\<forall>j < length gs. length gs \<le> j + GPS_FILTER_WINDOW_SIZE \<longrightarrow>
        latReadings f ! (j mod GPS_FILTER_WINDOW_SIZE) = location_lat (gs ! j) \<and>
        lonReadings f ! (j mod GPS_FILTER_WINDOW_SIZE) = location_lng (gs ! j) \<and>
        altReadings f ! (j mod GPS_FILTER_WINDOW_SIZE) = altitude_feet (gs ! j))"

text \<open>A valid fix with the given latitude, longitude and altitude.\<close>

definition fix_at :: "real \<Rightarrow> real \<Rightarrow> real \<Rightarrow> TinyGPSPlus" where
  "fix_at la lo al =
     \<lparr>location_isValid = True, location_lat = la, location_lng = lo,
      altitude_isValid = True, altitude_feet = al\<rparr>"

text \<open>
  The trimming rule in the words of the specification: sort the samples, drop the lowest
  and the highest \<open>n div 5\<close> of them when there are more than 5, and keep the rest.
\<close>

definition spec_trimmed :: "real list \<Rightarrow> real list" where
  "spec_trimmed xs =
     (let n = length xs;
          k = (if n > 5 then n div 5 else 0)
      in take (n - 2 * k) (drop k (sort xs)))"

text \<open>The arithmetic mean of the kept samples, as the specification words it.\<close>

definition spec_trimmed_mean :: "real list \<Rightarrow> real" where
  "spec_trimmed_mean xs = sum_list (spec_trimmed xs) / real (length (spec_trimmed xs))"

text \<open>
  The mean in \<open>float\<close> arithmetic: the kept samples added one by one to \<open>0.0\<close>, in
  ascending order, and the sum divided by their number, each operation rounded.
\<close>

definition float_trimmed_mean :: "real list \<Rightarrow> real" where
  "float_trimmed_mean xs =
     float_div (foldl float_add 0 (spec_trimmed xs)) (real (length (spec_trimmed xs)))"

section \<open>Properties of the wear-leveling store\<close>

subsection \<open>Bytes, slots and addresses\<close>

lemma slotConfig_values [simp]:
  "slotConfig WL_TIME_FORMAT = \<lparr>startAddr = 10, slotSize = 3, dataSize = 1\<rparr>"
  "slotConfig WL_POWER_CYCLE = \<lparr>startAddr = 60, slotSize = 6, dataSize = 4\<rparr>"
  by (simp_all add: slotConfig.simps WL_TIME_FORMAT_START_ADDR_def WL_POWER_CYCLE_START_ADDR_def
      WL_TIME_FORMAT_DATA_SIZE_def WL_POWER_CYCLE_DATA_SIZE_def WL_TIME_FORMAT_SLOT_SIZE_def
      WL_POWER_CYCLE_SLOT_SIZE_def WL_SEQUENCE_SIZE_def)

lemma get16_put16_bytes:
  "word_cat (ucast (drop_bit 8 v) :: 8 word) (ucast v :: 8 word) = (v :: 16 word)"
  by (rule bit_word_eqI) (auto simp: bit_simps)

lemma ulong_roundtrip: "ulong_of_bytes (bytes_of_ulong c) = c"
proof (rule bit_word_eqI)
  fix n :: nat
  assume "n < LENGTH(32)"
  then have n: "n < 32" by simp
  consider "n < 8" | "8 \<le> n" "n < 16" | "16 \<le> n" "n < 24" | "24 \<le> n"
    by linarith
  then show "bit (ulong_of_bytes (bytes_of_ulong c)) n = bit c n"
  proof cases
    case 1
    then show ?thesis unfolding ulong_of_bytes_def bytes_of_ulong_def
      by (auto simp: bit_simps)
  next
    case 2
    then show ?thesis unfolding ulong_of_bytes_def bytes_of_ulong_def
      by (auto simp: bit_simps)
  next
    case 3
    then show ?thesis unfolding ulong_of_bytes_def bytes_of_ulong_def
      by (auto simp: bit_simps)
  next
    case 4
    then show ?thesis using n unfolding ulong_of_bytes_def bytes_of_ulong_def
      by (auto simp: bit_simps)
  qed
qed

lemma writeSlot_loop_apply:
  "writeSlot_loop base i n data ee a =
     (if base + i \<le> a \<and> a < base + n then data ! (a - base) else ee a)"
proof (induction base i n data ee rule: writeSlot_loop.induct)
  case (1 base i n data ee)
  show ?case
  proof (cases "i < n")
    case True
    have "writeSlot_loop base i n data ee a =
          writeSlot_loop base (Suc i) n data (ee(base + i := data ! i)) a"
      using True by (subst writeSlot_loop.simps) simp
    also have "\<dots> = (if base + Suc i \<le> a \<and> a < base + n then data ! (a - base)
                     else (ee(base + i := data ! i)) a)"
      by (rule 1 [OF True])
    also have "\<dots> = (if base + i \<le> a \<and> a < base + n then data ! (a - base) else ee a)"
      using True by auto
    finally show ?thesis .
  next
    case False
    then show ?thesis by (subst writeSlot_loop.simps) auto
  qed
qed

lemma readSlot_loop_eq: "readSlot_loop base i n ee = map (\<lambda>k. ee (base + k)) [i..<n]"
proof (induction base i n ee rule: readSlot_loop.induct)
  case (1 base i n ee)
  show ?case
  proof (cases "i < n")
    case True
    then show ?thesis
      using 1 by (subst readSlot_loop.simps) (simp add: upt_conv_Cons)
  next
    case False
    then show ?thesis by (subst readSlot_loop.simps) simp
  qed
qed

lemma slotSize_eq: "slotSize (slotConfig dt) = WL_SEQUENCE_SIZE + dataSize (slotConfig dt)"
  by (cases dt) (simp_all add: WL_SEQUENCE_SIZE_def)

lemma writeSlot_apply:
  assumes "slot < WL_NUM_SLOTS"
  shows "writeSlot dt slot q d ee a =
     (if a = getSlotAddress dt slot then ucast q
      else if a = getSlotAddress dt slot + 1 then ucast (drop_bit 8 q)
      else if getSlotAddress dt slot + 2 \<le> a \<and>
              a < getSlotAddress dt slot + 2 + dataSize (slotConfig dt)
           then d ! (a - (getSlotAddress dt slot + 2))
      else ee a)"
  using assms
  by (simp add: writeSlot_def writeSlot_loop_apply EEPROM_put16_def WL_SEQUENCE_SIZE_def Let_def)

lemma writeSlot_frame:
  "a \<notin> slotAddrs dt slot \<Longrightarrow> writeSlot dt slot q d ee a = ee a"
proof (cases "slot < WL_NUM_SLOTS")
  case True
  assume "a \<notin> slotAddrs dt slot"
  then show ?thesis
    using True by (auto simp: writeSlot_apply slotAddrs_def slotSize_eq WL_SEQUENCE_SIZE_def)
next
  case False
  then show ?thesis by (simp add: writeSlot_def)
qed

lemma rawSequence_writeSlot_same:
  "slot < WL_NUM_SLOTS \<Longrightarrow> rawSequence dt slot (writeSlot dt slot q d ee) = q"
  by (simp add: rawSequence_def EEPROM_get16_def writeSlot_apply get16_put16_bytes)

lemma rawData_writeSlot_same:
  assumes "slot < WL_NUM_SLOTS" "length d = dataSize (slotConfig dt)"
  shows "rawData dt slot (writeSlot dt slot q d ee) = d"
proof -
  have "rawData dt slot (writeSlot dt slot q d ee) = map (\<lambda>k. d ! k) [0..<length d]"
    using assms
    by (simp add: rawData_def readSlot_loop_eq writeSlot_apply WL_SEQUENCE_SIZE_def)
  then show ?thesis by (simp add: map_nth)
qed

lemma slotAddrs_disjoint:
  "s \<noteq> t \<Longrightarrow> slotAddrs dt s \<inter> slotAddrs dt t = {}"
proof -
  assume "s \<noteq> t"
  then consider "s < t" | "t < s" by linarith
  then show ?thesis
  proof cases
    case 1
    then have "Suc s \<le> t" by simp
    then have "Suc s * slotSize (slotConfig dt) \<le> t * slotSize (slotConfig dt)"
      by (rule mult_le_mono1)
    then show ?thesis by (auto simp: slotAddrs_def getSlotAddress_def)
  next
    case 2
    then have "Suc t \<le> s" by simp
    then have "Suc t * slotSize (slotConfig dt) \<le> s * slotSize (slotConfig dt)"
      by (rule mult_le_mono1)
    then show ?thesis by (auto simp: slotAddrs_def getSlotAddress_def)
  qed
qed

lemma slot_addr_mem:
  "getSlotAddress dt s \<in> slotAddrs dt s" "getSlotAddress dt s + 1 \<in> slotAddrs dt s"
  by (cases dt; simp add: slotAddrs_def)+

lemma rawSequence_writeSlot_other:
  assumes "s \<noteq> t"
  shows "rawSequence dt s (writeSlot dt t q d ee) = rawSequence dt s ee"
proof -
  have "getSlotAddress dt s \<notin> slotAddrs dt t" "getSlotAddress dt s + 1 \<notin> slotAddrs dt t"
    using slotAddrs_disjoint [OF assms, of dt] slot_addr_mem [of dt s] by blast+
  then show ?thesis by (simp add: rawSequence_def EEPROM_get16_def writeSlot_frame)
qed

lemma readSlotSequence_raw:
  "readSlotSequence dt s ee =
     (if s \<ge> WL_NUM_SLOTS then 0 else if rawSequence dt s ee = 0xFFFF then 0 else rawSequence dt s ee)"
  by (simp add: readSlotSequence_def rawSequence_def WL_INVALID_SEQUENCE_def Let_def)

lemma readSlotSequence_writeSlot:
  assumes "t < WL_NUM_SLOTS"
  shows "readSlotSequence dt s (writeSlot dt t q d ee) =
     (if s = t then (if q = 0xFFFF then 0 else q) else readSlotSequence dt s ee)"
  using assms
  by (simp add: readSlotSequence_raw rawSequence_writeSlot_same rawSequence_writeSlot_other)

subsection \<open>Reading empty or invalid storage\<close>

lemma slots_emptyD: "slots_empty dt ee \<Longrightarrow> readSlotSequence dt s ee = WL_INVALID_SEQUENCE"
  by (cases "s < WL_NUM_SLOTS") (auto simp: slots_empty_def list_all_iff readSlotSequence_def)

lemma readSlot_empty: "slots_empty dt ee \<Longrightarrow> readSlot dt s ee = None"
  by (simp add: readSlot_def slots_emptyD)

lemma readTimeFormat_empty: "slots_empty WL_TIME_FORMAT ee \<Longrightarrow> readTimeFormat ee = 0"
  by (simp add: readTimeFormat_def readSlot_empty)

lemma readPowerCycleCount_empty: "slots_empty WL_POWER_CYCLE ee \<Longrightarrow> readPowerCycleCount ee = 0"
  by (simp add: readPowerCycleCount_def readSlot_empty)

lemma readSlot_Some_rawData: "readSlot dt s ee = Some d \<Longrightarrow> d = rawData dt s ee"
  by (auto simp: readSlot_def rawData_def split: if_splits)

lemma readTimeFormat_invalid:
  assumes "rawData WL_TIME_FORMAT (findLatestSlot WL_TIME_FORMAT ee) ee ! 0 \<noteq> 0"
    and "rawData WL_TIME_FORMAT (findLatestSlot WL_TIME_FORMAT ee) ee ! 0 \<noteq> 1"
  shows "readTimeFormat ee = 0"
proof (cases "readSlot WL_TIME_FORMAT (findLatestSlot WL_TIME_FORMAT ee) ee")
  case None
  then show ?thesis by (simp add: readTimeFormat_def)
next
  case (Some d)
  then show ?thesis
    using assms readSlot_Some_rawData [OF Some] by (simp add: readTimeFormat_def)
qed

lemma readPowerCycleCount_invalid:
  assumes "ulong_of_bytes (rawData WL_POWER_CYCLE (findLatestSlot WL_POWER_CYCLE ee) ee) \<ge> 0xFFFFFF00"
  shows "readPowerCycleCount ee = 0"
proof (cases "readSlot WL_POWER_CYCLE (findLatestSlot WL_POWER_CYCLE ee) ee")
  case None
  then show ?thesis by (simp add: readPowerCycleCount_def)
next
  case (Some d)
  then show ?thesis
    using assms readSlot_Some_rawData [OF Some] by (auto simp: readPowerCycleCount_def Let_def)
qed

text \<open>
  Claim C9. When no slot of a data type holds a valid sequence number, or when the
  payload of the slot that the scan selects fails the check of its type (a time-format
  byte other than 0 and 1, a power-cycle count of \<open>0xFFFFFF00\<close> or more),
  \<open>readTimeFormat\<close> and \<open>readPowerCycleCount\<close> return the default 0. Both are total
  functions into the value type: there is no error result.
\<close>

theorem read_returns_default:
  "(slots_empty WL_TIME_FORMAT ee \<longrightarrow> readTimeFormat ee = 0) \<and>
   (slots_empty WL_POWER_CYCLE ee \<longrightarrow> readPowerCycleCount ee = 0) \<and>
   (rawData WL_TIME_FORMAT (findLatestSlot WL_TIME_FORMAT ee') ee' ! 0 \<noteq> 0 \<and>
    rawData WL_TIME_FORMAT (findLatestSlot WL_TIME_FORMAT ee') ee' ! 0 \<noteq> 1
      \<longrightarrow> readTimeFormat ee' = 0) \<and>
   (ulong_of_bytes (rawData WL_POWER_CYCLE (findLatestSlot WL_POWER_CYCLE ee') ee') \<ge> 0xFFFFFF00
      \<longrightarrow> readPowerCycleCount ee' = 0)"
  using readTimeFormat_empty readPowerCycleCount_empty readTimeFormat_invalid
    readPowerCycleCount_invalid by blast

text \<open>
  The witness: the erased EEPROM for the empty case; for the invalid payloads, a storage
  whose only time-format slot holds the byte 5 and whose only power-cycle slot holds the
  count \<open>0xFFFFFF00\<close>.
\<close>

theorem read_returns_default_witness:
  "slots_empty WL_TIME_FORMAT erased \<and> readTimeFormat erased = 0 \<and>
   slots_empty WL_POWER_CYCLE erased \<and> readPowerCycleCount erased = 0 \<and>
   rawData WL_TIME_FORMAT
     (findLatestSlot WL_TIME_FORMAT
       (writeSlot WL_TIME_FORMAT 3 7 [5]
         (writeSlot WL_POWER_CYCLE 2 9 (bytes_of_ulong 0xFFFFFF00) erased)))
     (writeSlot WL_TIME_FORMAT 3 7 [5]
       (writeSlot WL_POWER_CYCLE 2 9 (bytes_of_ulong 0xFFFFFF00) erased)) = [5] \<and>
   readTimeFormat
     (writeSlot WL_TIME_FORMAT 3 7 [5]
       (writeSlot WL_POWER_CYCLE 2 9 (bytes_of_ulong 0xFFFFFF00) erased)) = 0 \<and>
   ulong_of_bytes
     (rawData WL_POWER_CYCLE
       (findLatestSlot WL_POWER_CYCLE
         (writeSlot WL_TIME_FORMAT 3 7 [5]
           (writeSlot WL_POWER_CYCLE 2 9 (bytes_of_ulong 0xFFFFFF00) erased)))
       (writeSlot WL_TIME_FORMAT 3 7 [5]
         (writeSlot WL_POWER_CYCLE 2 9 (bytes_of_ulong 0xFFFFFF00) erased))) = 0xFFFFFF00 \<and>
   readPowerCycleCount
     (writeSlot WL_TIME_FORMAT 3 7 [5]
       (writeSlot WL_POWER_CYCLE 2 9 (bytes_of_ulong 0xFFFFFF00) erased)) = 0"
proof -
  let ?bad = "writeSlot WL_TIME_FORMAT 3 7 [5]
    (writeSlot WL_POWER_CYCLE 2 9 (bytes_of_ulong 0xFFFFFF00) erased)"
  have e1: "slots_empty WL_TIME_FORMAT erased" by code_simp
  have e2: "slots_empty WL_POWER_CYCLE erased" by code_simp
  have b1: "rawData WL_TIME_FORMAT (findLatestSlot WL_TIME_FORMAT ?bad) ?bad = [5]"
    by code_simp
  have b2: "ulong_of_bytes (rawData WL_POWER_CYCLE (findLatestSlot WL_POWER_CYCLE ?bad) ?bad)
      = 0xFFFFFF00"
    by code_simp
  show ?thesis
    using e1 e2 b1 b2 read_returns_default [of erased ?bad] by simp
qed

subsection \<open>Rejected input\<close>

text \<open>
  Claim C6. \<open>writeTimeFormat\<close> with a format other than 0 and 1 changes nothing: the
  instance (\<open>currentSlot\<close>, \<open>nextSequence\<close>) and the storage are as before, and so is
  the result of the next \<open>readTimeFormat\<close>.
\<close>

theorem writeTimeFormat_rejects_invalid:
  "format \<noteq> 0 \<and> format \<noteq> 1 \<Longrightarrow>
     writeTimeFormat format (wl, ee) = (wl, ee) \<and>
     currentSlot (fst (writeTimeFormat format (wl, ee))) = currentSlot wl \<and>
     nextSequence (fst (writeTimeFormat format (wl, ee))) = nextSequence wl \<and>
     snd (writeTimeFormat format (wl, ee)) = ee \<and>
     readTimeFormat (snd (writeTimeFormat format (wl, ee))) = readTimeFormat ee"
  by (simp add: writeTimeFormat_def)

text \<open>The witness: format 2 after a stored format 1, which is still read back.\<close>

theorem writeTimeFormat_rejects_invalid_witness:
  "(2 :: 8 word) \<noteq> 0 \<and> (2 :: 8 word) \<noteq> 1 \<and>
   writeTimeFormat 2 (writeTimeFormat 1 (EEPROMWearLeveling_new, erased)) =
     writeTimeFormat 1 (EEPROMWearLeveling_new, erased) \<and>
   readTimeFormat (snd (writeTimeFormat 2 (writeTimeFormat 1 (EEPROMWearLeveling_new, erased)))) = 1"
proof -
  have h: "(2 :: 8 word) \<noteq> 0 \<and> (2 :: 8 word) \<noteq> 1" by simp
  have r: "readTimeFormat (snd (writeTimeFormat 1 (EEPROMWearLeveling_new, erased))) = 1"
    by code_simp
  show ?thesis
    using h r writeTimeFormat_rejects_invalid [OF h,
        of "fst (writeTimeFormat 1 (EEPROMWearLeveling_new, erased))"
           "snd (writeTimeFormat 1 (EEPROMWearLeveling_new, erased))"]
    by simp
qed

subsection \<open>Slot rotation\<close>

lemma writeNext_currentSlot:
  "currentSlot (fst (writeNext dt d st)) dt = (currentSlot (fst st) dt + 1) mod WL_NUM_SLOTS"
  by (simp add: writeNext_def Let_def)

lemma writeNext_storage:
  "snd (writeNext dt d st) =
     writeSlot dt ((currentSlot (fst st) dt + 1) mod WL_NUM_SLOTS) (nextSequence (fst st) dt) d (snd st)"
  by (simp add: writeNext_def Let_def)

lemma next_slot_less: "(c + 1) mod WL_NUM_SLOTS < WL_NUM_SLOTS"
  by (simp add: WL_NUM_SLOTS_def)

lemma next_slot_neq: "(c + 1) mod WL_NUM_SLOTS \<noteq> c"
  unfolding WL_NUM_SLOTS_def by presburger

lemma writeNexts_snoc: "writeNexts dt (ds @ [d]) st = writeNext dt d (writeNexts dt ds st)"
  by (induction ds arbitrary: st) simp_all

lemma writeNexts_currentSlot:
  "currentSlot (fst (writeNext dt d (writeNexts dt ds st))) dt =
     (currentSlot (fst st) dt + length ds + 1) mod WL_NUM_SLOTS"
proof (induction ds arbitrary: d rule: rev_induct)
  case Nil
  show ?case by (simp add: writeNext_currentSlot)
next
  case (snoc x xs)
  have "currentSlot (fst (writeNext dt d (writeNexts dt (xs @ [x]) st))) dt =
        (currentSlot (fst (writeNext dt x (writeNexts dt xs st))) dt + 1) mod WL_NUM_SLOTS"
    by (simp add: writeNext_currentSlot writeNexts_snoc)
  also have "\<dots> = ((currentSlot (fst st) dt + length xs + 1) mod WL_NUM_SLOTS + 1) mod WL_NUM_SLOTS"
    by (simp only: snoc.IH)
  also have "\<dots> = (currentSlot (fst st) dt + length (xs @ [x]) + 1) mod WL_NUM_SLOTS"
    by (simp add: mod_simps)
  finally show ?case .
qed

lemma writeTimeFormats_writeNexts:
  "\<forall>x\<in>set vs. x = 0 \<or> x = 1 \<Longrightarrow>
     writeTimeFormats vs st = writeNexts WL_TIME_FORMAT (map (\<lambda>v. [v]) vs) st"
  by (induction vs arbitrary: st) (auto simp: writeTimeFormat_def)

lemma writePowerCycleCounts_writeNexts:
  "writePowerCycleCounts cs st = writeNexts WL_POWER_CYCLE (map bytes_of_ulong cs) st"
  by (induction cs arbitrary: st) (simp_all add: writePowerCycleCount_def)

lemma writeNext_rawSequence:
  "rawSequence dt (currentSlot (fst (writeNext dt d st)) dt) (snd (writeNext dt d st)) =
     nextSequence (fst st) dt"
  unfolding writeNext_currentSlot writeNext_storage
  by (rule rawSequence_writeSlot_same) (rule next_slot_less)

lemma writeNext_rawData:
  "length d = dataSize (slotConfig dt) \<Longrightarrow>
     rawData dt (currentSlot (fst (writeNext dt d st)) dt) (snd (writeNext dt d st)) = d"
  unfolding writeNext_currentSlot writeNext_storage
  by (rule rawData_writeSlot_same) (simp_all add: WL_NUM_SLOTS_def)

lemma writeNext_frame:
  "a \<notin> slotAddrs dt (currentSlot (fst (writeNext dt d st)) dt) \<Longrightarrow>
     snd (writeNext dt d st) a = snd st a"
  unfolding writeNext_currentSlot writeNext_storage
  by (rule writeSlot_frame)

text \<open>
  Claim C5. After any valid writes \<open>vs\<close> to one data type, the next valid write
  targets slot \<open>(start + length vs + 1) mod N\<close>, where \<open>start\<close> is
  \<open>currentSlot\<close> before the first of them: the slot after the one of the previous
  write, never the same slot. The write puts \<open>nextSequence\<close> and the bytes of the
  value into that slot and changes no address outside it. \<open>writePowerCycleCount\<close>
  accepts every value.
\<close>

theorem wear_rotation:
  "((\<forall>x\<in>set vs. x = 0 \<or> x = 1) \<and> (v = 0 \<or> v = 1) \<longrightarrow>
      (let before = writeTimeFormats vs st;
           after = writeTimeFormat v before;
           target = currentSlot (fst after) WL_TIME_FORMAT
       in target = (currentSlot (fst st) WL_TIME_FORMAT + length vs + 1) mod WL_NUM_SLOTS \<and>
          target = (currentSlot (fst before) WL_TIME_FORMAT + 1) mod WL_NUM_SLOTS \<and>
          target \<noteq> currentSlot (fst before) WL_TIME_FORMAT \<and>
          rawSequence WL_TIME_FORMAT target (snd after) = nextSequence (fst before) WL_TIME_FORMAT \<and>
          rawData WL_TIME_FORMAT target (snd after) = [v] \<and>
          (a \<notin> slotAddrs WL_TIME_FORMAT target \<longrightarrow> snd after a = snd before a))) \<and>
   (let before = writePowerCycleCounts cs st;
        after = writePowerCycleCount c before;
        target = currentSlot (fst after) WL_POWER_CYCLE
    in target = (currentSlot (fst st) WL_POWER_CYCLE + length cs + 1) mod WL_NUM_SLOTS \<and>
       target = (currentSlot (fst before) WL_POWER_CYCLE + 1) mod WL_NUM_SLOTS \<and>
       target \<noteq> currentSlot (fst before) WL_POWER_CYCLE \<and>
       rawSequence WL_POWER_CYCLE target (snd after) = nextSequence (fst before) WL_POWER_CYCLE \<and>
       rawData WL_POWER_CYCLE target (snd after) = bytes_of_ulong c \<and>
       (a \<notin> slotAddrs WL_POWER_CYCLE target \<longrightarrow> snd after a = snd before a))"
proof (intro conjI impI)
  assume h: "(\<forall>x\<in>set vs. x = 0 \<or> x = 1) \<and> (v = 0 \<or> v = 1)"
  then have w: "writeTimeFormat v (writeTimeFormats vs st) =
      writeNext WL_TIME_FORMAT [v] (writeNexts WL_TIME_FORMAT (map (\<lambda>v. [v]) vs) st)"
    by (auto simp: writeTimeFormats_writeNexts writeTimeFormat_def)
  have b: "writeTimeFormats vs st = writeNexts WL_TIME_FORMAT (map (\<lambda>v. [v]) vs) st"
    using h by (simp add: writeTimeFormats_writeNexts)
  show "let before = writeTimeFormats vs st;
           after = writeTimeFormat v before;
           target = currentSlot (fst after) WL_TIME_FORMAT
       in target = (currentSlot (fst st) WL_TIME_FORMAT + length vs + 1) mod WL_NUM_SLOTS \<and>
          target = (currentSlot (fst before) WL_TIME_FORMAT + 1) mod WL_NUM_SLOTS \<and>
          target \<noteq> currentSlot (fst before) WL_TIME_FORMAT \<and>
          rawSequence WL_TIME_FORMAT target (snd after) = nextSequence (fst before) WL_TIME_FORMAT \<and>
          rawData WL_TIME_FORMAT target (snd after) = [v] \<and>
          (a \<notin> slotAddrs WL_TIME_FORMAT target \<longrightarrow> snd after a = snd before a)"
    unfolding Let_def w unfolding b
    using writeNexts_currentSlot [of WL_TIME_FORMAT "[v]" "map (\<lambda>v. [v]) vs" st]
      writeNext_rawSequence [of WL_TIME_FORMAT "[v]" "writeNexts WL_TIME_FORMAT (map (\<lambda>v. [v]) vs) st"]
      writeNext_rawData [of "[v]" WL_TIME_FORMAT "writeNexts WL_TIME_FORMAT (map (\<lambda>v. [v]) vs) st"]
      writeNext_frame [of a WL_TIME_FORMAT "[v]" "writeNexts WL_TIME_FORMAT (map (\<lambda>v. [v]) vs) st"]
      next_slot_neq [of "currentSlot (fst (writeNexts WL_TIME_FORMAT (map (\<lambda>v. [v]) vs) st)) WL_TIME_FORMAT"]
    by (simp add: writeNext_currentSlot)
next
  have w: "writePowerCycleCount c (writePowerCycleCounts cs st) =
      writeNext WL_POWER_CYCLE (bytes_of_ulong c)
        (writeNexts WL_POWER_CYCLE (map bytes_of_ulong cs) st)"
    by (simp add: writePowerCycleCounts_writeNexts writePowerCycleCount_def)
  have l: "length (bytes_of_ulong c) = dataSize (slotConfig WL_POWER_CYCLE)"
    by (simp add: bytes_of_ulong_def)
  show "let before = writePowerCycleCounts cs st;
        after = writePowerCycleCount c before;
        target = currentSlot (fst after) WL_POWER_CYCLE
    in target = (currentSlot (fst st) WL_POWER_CYCLE + length cs + 1) mod WL_NUM_SLOTS \<and>
       target = (currentSlot (fst before) WL_POWER_CYCLE + 1) mod WL_NUM_SLOTS \<and>
       target \<noteq> currentSlot (fst before) WL_POWER_CYCLE \<and>
       rawSequence WL_POWER_CYCLE target (snd after) = nextSequence (fst before) WL_POWER_CYCLE \<and>
       rawData WL_POWER_CYCLE target (snd after) = bytes_of_ulong c \<and>
       (a \<notin> slotAddrs WL_POWER_CYCLE target \<longrightarrow> snd after a = snd before a)"
    unfolding Let_def w unfolding writePowerCycleCounts_writeNexts
    using writeNexts_currentSlot [of WL_POWER_CYCLE "bytes_of_ulong c" "map bytes_of_ulong cs" st]
      writeNext_rawSequence [of WL_POWER_CYCLE "bytes_of_ulong c" "writeNexts WL_POWER_CYCLE (map bytes_of_ulong cs) st"]
      writeNext_rawData [OF l, of "writeNexts WL_POWER_CYCLE (map bytes_of_ulong cs) st"]
      writeNext_frame [of a WL_POWER_CYCLE "bytes_of_ulong c" "writeNexts WL_POWER_CYCLE (map bytes_of_ulong cs) st"]
      next_slot_neq [of "currentSlot (fst (writeNexts WL_POWER_CYCLE (map bytes_of_ulong cs) st)) WL_POWER_CYCLE"]
    by (simp add: writeNext_currentSlot)
qed

text \<open>
  The witness: 16 time-format writes from the constructed state come back to slot 0, and
  the 17th goes to slot 1 with sequence 17; address 10 (slot 0) keeps its byte. Three
  power-cycle writes end in slot 3.
\<close>

theorem wear_rotation_witness:
  "currentSlot (fst (writeTimeFormats [0, 1, 0, 1, 0, 1, 0, 1, 0, 1, 0, 1, 0, 1, 0, 1]
       (EEPROMWearLeveling_new, erased))) WL_TIME_FORMAT = 0 \<and>
   currentSlot (fst (writeTimeFormat 1
     (writeTimeFormats [0, 1, 0, 1, 0, 1, 0, 1, 0, 1, 0, 1, 0, 1, 0, 1]
       (EEPROMWearLeveling_new, erased)))) WL_TIME_FORMAT = 1 \<and>
   rawSequence WL_TIME_FORMAT 1 (snd (writeTimeFormat 1
     (writeTimeFormats [0, 1, 0, 1, 0, 1, 0, 1, 0, 1, 0, 1, 0, 1, 0, 1]
       (EEPROMWearLeveling_new, erased)))) = 17 \<and>
   rawData WL_TIME_FORMAT 1 (snd (writeTimeFormat 1
     (writeTimeFormats [0, 1, 0, 1, 0, 1, 0, 1, 0, 1, 0, 1, 0, 1, 0, 1]
       (EEPROMWearLeveling_new, erased)))) = [1] \<and>
   snd (writeTimeFormat 1
     (writeTimeFormats [0, 1, 0, 1, 0, 1, 0, 1, 0, 1, 0, 1, 0, 1, 0, 1]
       (EEPROMWearLeveling_new, erased))) 10 = 16 \<and>
   currentSlot (fst (writePowerCycleCount 30
     (writePowerCycleCounts [10, 20] (EEPROMWearLeveling_new, erased)))) WL_POWER_CYCLE = 3 \<and>
   rawSequence WL_POWER_CYCLE 3 (snd (writePowerCycleCount 30
     (writePowerCycleCounts [10, 20] (EEPROMWearLeveling_new, erased)))) = 3 \<and>
   rawData WL_POWER_CYCLE 3 (snd (writePowerCycleCount 30
     (writePowerCycleCounts [10, 20] (EEPROMWearLeveling_new, erased)))) = [30, 0, 0, 0] \<and>
   snd (writePowerCycleCount 30
     (writePowerCycleCounts [10, 20] (EEPROMWearLeveling_new, erased))) 10 = 0xFF"
proof -
  let ?vs = "[0, 1, 0, 1, 0, 1, 0, 1, 0, 1, 0, 1, 0, 1, 0, 1] :: 8 word list"
  let ?st = "(EEPROMWearLeveling_new, erased)"
  have h: "(\<forall>x\<in>set ?vs. x = 0 \<or> x = 1) \<and> ((1 :: 8 word) = 0 \<or> (1 :: 8 word) = 1)"
    by simp
  have s0: "currentSlot (fst ?st) WL_TIME_FORMAT = 0" "currentSlot (fst ?st) WL_POWER_CYCLE = 0"
    by (simp_all add: EEPROMWearLeveling_new_def)
  have b1: "currentSlot (fst (writeTimeFormats ?vs ?st)) WL_TIME_FORMAT = 0"
    by code_simp
  have b2: "nextSequence (fst (writeTimeFormats ?vs ?st)) WL_TIME_FORMAT = 17"
    by code_simp
  have b3: "snd (writeTimeFormats ?vs ?st) 10 = 16"
    by code_simp
  have b4: "nextSequence (fst (writePowerCycleCounts [10, 20] ?st)) WL_POWER_CYCLE = 3"
    by code_simp
  have b5: "snd (writePowerCycleCounts [10, 20] ?st) 10 = 0xFF"
    by code_simp
  have b6: "bytes_of_ulong 30 = [30, 0, 0, 0]"
    by code_simp
  have a: "(10 :: nat) \<notin> slotAddrs WL_TIME_FORMAT 1" "(10 :: nat) \<notin> slotAddrs WL_POWER_CYCLE 3"
    by (simp_all add: slotAddrs_def getSlotAddress_def)
  show ?thesis
    using wear_rotation [of ?vs 1 ?st 10 "[10, 20]" 30] h s0 b1 b2 b3 b4 b5 b6 a
    by (auto simp: Let_def WL_NUM_SLOTS_def
        simp del: writeTimeFormats.simps writePowerCycleCounts.simps)
qed

subsection \<open>The scan finds the last write\<close>

lemma findLatestSlot_loop_done:
  "\<not> slot < WL_NUM_SLOTS \<Longrightarrow> findLatestSlot_loop dt ee slot h l = l"
  by (subst findLatestSlot_loop.simps) simp

lemma findLatestSlot_loop_take:
  "slot < WL_NUM_SLOTS \<Longrightarrow>
   readSlotSequence dt slot ee \<noteq> WL_INVALID_SEQUENCE \<and>
     (h = WL_INVALID_SEQUENCE \<or> readSlotSequence dt slot ee > h \<or>
      (h > 0xF000 \<and> readSlotSequence dt slot ee < 0x1000)) \<Longrightarrow>
   findLatestSlot_loop dt ee slot h l =
     findLatestSlot_loop dt ee (Suc slot) (readSlotSequence dt slot ee) slot"
  by (subst findLatestSlot_loop.simps) (auto simp: Let_def)

lemma findLatestSlot_loop_keep:
  "slot < WL_NUM_SLOTS \<Longrightarrow>
   \<not> (readSlotSequence dt slot ee \<noteq> WL_INVALID_SEQUENCE \<and>
     (h = WL_INVALID_SEQUENCE \<or> readSlotSequence dt slot ee > h \<or>
      (h > 0xF000 \<and> readSlotSequence dt slot ee < 0x1000))) \<Longrightarrow>
   findLatestSlot_loop dt ee slot h l = findLatestSlot_loop dt ee (Suc slot) h l"
  by (subst findLatestSlot_loop.simps) (auto simp: Let_def)

lemma findLatestSlot_loop_after:
  assumes q: "q \<noteq> 0"
    and others: "\<And>s. s < WL_NUM_SLOTS \<Longrightarrow> s \<noteq> c \<Longrightarrow>
        readSlotSequence dt s ee = 0 \<or>
        (readSlotSequence dt s ee < q \<and> unat q - unat (readSlotSequence dt s ee) < 16)"
  shows "c < slot \<Longrightarrow> findLatestSlot_loop dt ee slot q c = c"
proof (induction "WL_NUM_SLOTS - slot" arbitrary: slot)
  case 0
  then show ?case by (simp add: findLatestSlot_loop_done)
next
  case (Suc k)
  then have lt: "slot < WL_NUM_SLOTS" and ne: "slot \<noteq> c" by simp_all
  let ?x = "readSlotSequence dt slot ee"
  have keep: "\<not> (?x \<noteq> WL_INVALID_SEQUENCE \<and>
      (q = WL_INVALID_SEQUENCE \<or> ?x > q \<or> (q > 0xF000 \<and> ?x < 0x1000)))"
    using others [OF lt ne] q
    by (auto simp: WL_INVALID_SEQUENCE_def word_less_nat_alt)
  have "findLatestSlot_loop dt ee slot q c = findLatestSlot_loop dt ee (Suc slot) q c"
    by (rule findLatestSlot_loop_keep [OF lt keep])
  also have "\<dots> = c"
    using Suc by (intro Suc.hyps(1)) simp_all
  finally show ?case .
qed

lemma findLatestSlot_loop_before:
  assumes c: "c < WL_NUM_SLOTS" and q: "readSlotSequence dt c ee = q" "q \<noteq> 0"
    and others: "\<And>s. s < WL_NUM_SLOTS \<Longrightarrow> s \<noteq> c \<Longrightarrow>
        readSlotSequence dt s ee = 0 \<or>
        (readSlotSequence dt s ee < q \<and> unat q - unat (readSlotSequence dt s ee) < 16)"
  shows "slot \<le> c \<Longrightarrow> h = 0 \<or> (h < q \<and> unat q - unat h < 16) \<Longrightarrow>
      findLatestSlot_loop dt ee slot h l = c"
proof (induction "c - slot" arbitrary: slot h l)
  case 0
  then have sc: "slot = c" by simp
  have take: "q \<noteq> WL_INVALID_SEQUENCE \<and>
      (h = WL_INVALID_SEQUENCE \<or> q > h \<or> (h > 0xF000 \<and> q < 0x1000))"
    using q(2) "0.prems"(2) by (auto simp: WL_INVALID_SEQUENCE_def)
  have "findLatestSlot_loop dt ee slot h l = findLatestSlot_loop dt ee (Suc c) q c"
    using findLatestSlot_loop_take [OF c, of dt ee h l] take q(1) unfolding sc by simp
  also have "\<dots> = c"
    by (rule findLatestSlot_loop_after [OF q(2) others]) simp_all
  finally show ?case .
next
  case (Suc k)
  then have lt: "slot < WL_NUM_SLOTS" and ne: "slot \<noteq> c" and le: "Suc slot \<le> c"
    using c by simp_all
  let ?x = "readSlotSequence dt slot ee"
  have k: "k = c - Suc slot" using Suc.hyps(2) by simp
  show ?case
  proof (cases "?x \<noteq> WL_INVALID_SEQUENCE \<and>
      (h = WL_INVALID_SEQUENCE \<or> ?x > h \<or> (h > 0xF000 \<and> ?x < 0x1000))")
    case True
    then have x: "?x = 0 \<or> (?x < q \<and> unat q - unat ?x < 16)"
      using others [OF lt ne] by simp
    have "findLatestSlot_loop dt ee slot h l = findLatestSlot_loop dt ee (Suc slot) ?x slot"
      by (rule findLatestSlot_loop_take [OF lt True])
    also have "\<dots> = c"
      using x by (intro Suc.hyps(1) [OF k le]) 
    finally show ?thesis .
  next
    case False
    have "findLatestSlot_loop dt ee slot h l = findLatestSlot_loop dt ee (Suc slot) h l"
      by (rule findLatestSlot_loop_keep [OF lt False])
    also have "\<dots> = c"
      using Suc.prems(2) by (intro Suc.hyps(1) [OF k le])
    finally show ?thesis .
  qed
qed

lemma findLatestSlot_unique_max:
  assumes "c < WL_NUM_SLOTS" and "readSlotSequence dt c ee \<noteq> 0"
    and "\<And>s. s < WL_NUM_SLOTS \<Longrightarrow> s \<noteq> c \<Longrightarrow>
        readSlotSequence dt s ee = 0 \<or>
        (readSlotSequence dt s ee < readSlotSequence dt c ee \<and>
         unat (readSlotSequence dt c ee) - unat (readSlotSequence dt s ee) < 16)"
  shows "findLatestSlot dt ee = c"
  unfolding findLatestSlot_def
  by (rule findLatestSlot_loop_before [OF assms(1) refl assms(2) assms(3)])
     (simp_all add: WL_INVALID_SEQUENCE_def)

lemma findLatestSlot_loop_empty:
  assumes "slots_empty dt ee"
  shows "findLatestSlot_loop dt ee slot h l = l"
proof (induction "WL_NUM_SLOTS - slot" arbitrary: slot)
  case 0
  then show ?case by (simp add: findLatestSlot_loop_done)
next
  case (Suc k)
  from Suc have lt: "slot < WL_NUM_SLOTS" by simp
  have "findLatestSlot_loop dt ee slot h l = findLatestSlot_loop dt ee (Suc slot) h l"
    by (rule findLatestSlot_loop_keep [OF lt]) (simp add: slots_emptyD [OF assms])
  also have "\<dots> = l"
    using Suc by (intro Suc.hyps(1)) simp
  finally show ?case .
qed

lemma findLatestSlot_empty: "slots_empty dt ee \<Longrightarrow> findLatestSlot dt ee = 0"
  by (simp add: findLatestSlot_def findLatestSlot_loop_empty)

lemma rot_dist:
  assumes "s < WL_NUM_SLOTS" "c < WL_NUM_SLOTS"
  shows "(c + WL_NUM_SLOTS - s) mod WL_NUM_SLOTS = (if s \<le> c then c - s else c + WL_NUM_SLOTS - s)"
proof (cases "s \<le> c")
  case True
  have "(c + WL_NUM_SLOTS - s) mod WL_NUM_SLOTS = ((c - s) + WL_NUM_SLOTS) mod WL_NUM_SLOTS"
    using True by simp
  also have "\<dots> = (c - s) mod WL_NUM_SLOTS" by (rule mod_add_self2)
  also have "\<dots> = c - s" using assms by simp
  finally show ?thesis using True by simp
next
  case False
  then show ?thesis using assms by simp
qed

lemma rot_next:
  assumes "c < WL_NUM_SLOTS"
  shows "Suc c mod WL_NUM_SLOTS = (if Suc c = WL_NUM_SLOTS then 0 else Suc c)"
  using assms by (simp add: mod_Suc)

lemma slots_rotatedD:
  assumes "slots_rotated dt ee c m" "s < WL_NUM_SLOTS"
  shows "unat (readSlotSequence dt s ee) =
     (if (c + WL_NUM_SLOTS - s) mod WL_NUM_SLOTS < m
      then m - (c + WL_NUM_SLOTS - s) mod WL_NUM_SLOTS else 0)"
  using assms by (simp add: slots_rotated_def list_all_iff Let_def)

lemma slots_rotated_current:
  assumes "slots_rotated dt ee c m"
  shows "unat (readSlotSequence dt c ee) = m"
proof -
  have c: "c < WL_NUM_SLOTS" using assms by (simp add: slots_rotated_def)
  show ?thesis using slots_rotatedD [OF assms c] by simp
qed

lemma slots_rotated_latest:
  assumes r: "slots_rotated dt ee c m" and m: "1 \<le> m"
  shows "findLatestSlot dt ee = c"
proof (rule findLatestSlot_unique_max)
  show c: "c < WL_NUM_SLOTS" using r by (simp add: slots_rotated_def)
  have cur: "unat (readSlotSequence dt c ee) = m" by (rule slots_rotated_current [OF r])
  then show "readSlotSequence dt c ee \<noteq> 0" using m by auto
  fix s assume s: "s < WL_NUM_SLOTS" and ne: "s \<noteq> c"
  let ?d = "(c + WL_NUM_SLOTS - s) mod WL_NUM_SLOTS"
  have d1: "0 < ?d"
    using rot_dist [OF s c] ne s c by (simp split: if_splits)
  have d2: "?d < 16"
    by (simp add: WL_NUM_SLOTS_def)
  note d = d1 d2
  have u: "unat (readSlotSequence dt s ee) = (if ?d < m then m - ?d else 0)"
    by (rule slots_rotatedD [OF r s])
  show "readSlotSequence dt s ee = 0 \<or>
        (readSlotSequence dt s ee < readSlotSequence dt c ee \<and>
         unat (readSlotSequence dt c ee) - unat (readSlotSequence dt s ee) < 16)"
  proof (cases "?d < m")
    case True
    then show ?thesis using u cur d by (simp add: word_less_nat_alt)
  next
    case False
    then have "unat (readSlotSequence dt s ee) = 0" using u by simp
    then show ?thesis by (simp add: unat_eq_0)
  qed
qed

lemma slots_rotated_empty:
  "slots_empty dt ee \<Longrightarrow> c < WL_NUM_SLOTS \<Longrightarrow> slots_rotated dt ee c 0"
  by (simp add: slots_rotated_def list_all_iff slots_emptyD WL_INVALID_SEQUENCE_def)

lemma slots_rotated_step:
  assumes r: "slots_rotated dt ee c m" and m: "m < 0xFFFE" and q: "unat q = m + 1"
  shows "slots_rotated dt (writeSlot dt (Suc c mod WL_NUM_SLOTS) q d ee)
           (Suc c mod WL_NUM_SLOTS) (Suc m)"
proof -
  have c: "c < WL_NUM_SLOTS" using r by (simp add: slots_rotated_def)
  have t: "Suc c mod WL_NUM_SLOTS < WL_NUM_SLOTS" by (simp add: WL_NUM_SLOTS_def)
  have q1: "q \<noteq> 0xFFFF" using q m by auto
  have "unat (readSlotSequence dt s (writeSlot dt (Suc c mod WL_NUM_SLOTS) q d ee)) =
      (if (Suc c mod WL_NUM_SLOTS + WL_NUM_SLOTS - s) mod WL_NUM_SLOTS < Suc m
       then Suc m - (Suc c mod WL_NUM_SLOTS + WL_NUM_SLOTS - s) mod WL_NUM_SLOTS else 0)"
    if s: "s < WL_NUM_SLOTS" for s
  proof (cases "s = Suc c mod WL_NUM_SLOTS")
    case True
    then show ?thesis
      using q q1 t by (simp add: readSlotSequence_writeSlot)
  next
    case False
    have d: "(Suc c mod WL_NUM_SLOTS + WL_NUM_SLOTS - s) mod WL_NUM_SLOTS =
        Suc ((c + WL_NUM_SLOTS - s) mod WL_NUM_SLOTS)"
      using False s c t by (auto simp: rot_dist rot_next split: if_splits)
    show ?thesis
      using False t slots_rotatedD [OF r s] by (simp add: readSlotSequence_writeSlot d)
  qed
  then show ?thesis
    using t m by (simp add: slots_rotated_def list_all_iff Let_def)
qed

lemma store_inv_step:
  assumes inv: "store_inv dt st c m" and m: "m < 0xFFFE"
  shows "store_inv dt (writeNext dt d st) (Suc c mod WL_NUM_SLOTS) (Suc m)"
proof -
  let ?q = "nextSequence (fst st) dt"
  have r: "slots_rotated dt (snd st) c m" and cs: "currentSlot (fst st) dt = c"
    and q: "unat ?q = m + 1"
    using inv m by (simp_all add: store_inv_def)
  have s1: "slots_rotated dt (snd (writeNext dt d st)) (Suc c mod WL_NUM_SLOTS) (Suc m)"
    using slots_rotated_step [OF r m q, of d] by (simp add: writeNext_storage cs)
  have s2: "currentSlot (fst (writeNext dt d st)) dt = Suc c mod WL_NUM_SLOTS"
    by (simp add: writeNext_currentSlot cs)
  have u: "unat (?q + 1) = m + 2"
    using q m by (simp add: unat_word_ariths)
  have s3: "unat (nextSequence (fst (writeNext dt d st)) dt) = Suc m + 1" if "Suc m < 0xFFFE"
  proof -
    have "?q + 1 \<noteq> 0" using u by auto
    moreover have "?q + 1 \<noteq> 0xFFFF" using u that by auto
    ultimately have "nextSequence (fst (writeNext dt d st)) dt = ?q + 1"
      by (simp add: writeNext_def Let_def WL_INVALID_SEQUENCE_def)
    then show ?thesis using u by simp
  qed
  show ?thesis using s1 s2 s3 by (simp add: store_inv_def)
qed

lemma store_inv_writeNexts:
  "store_inv dt st c m \<Longrightarrow> m + length ds \<le> 0xFFFE \<Longrightarrow>
     store_inv dt (writeNexts dt ds st) ((c + length ds) mod WL_NUM_SLOTS) (m + length ds)"
proof (induction ds arbitrary: st c m)
  case Nil
  then have "c < WL_NUM_SLOTS" by (simp add: store_inv_def slots_rotated_def)
  then show ?case using Nil by simp
next
  case (Cons d ds)
  have m: "m < 0xFFFE" using Cons.prems(2) by simp
  have "store_inv dt (writeNexts dt ds (writeNext dt d st))
      ((Suc c mod WL_NUM_SLOTS + length ds) mod WL_NUM_SLOTS) (Suc m + length ds)"
    using Cons.prems(2) by (intro Cons.IH store_inv_step [OF Cons.prems(1) m]) simp
  moreover have "(Suc c mod WL_NUM_SLOTS + length ds) mod WL_NUM_SLOTS =
      (c + length (d # ds)) mod WL_NUM_SLOTS"
    by (simp add: mod_simps)
  ultimately show ?case by simp
qed

lemma store_inv_latest:
  assumes inv: "store_inv dt st c m" and m: "1 \<le> m"
  shows "findLatestSlot dt (snd st) = currentSlot (fst st) dt"
    and "readSlot dt (findLatestSlot dt (snd st)) (snd st) =
           Some (rawData dt (currentSlot (fst st) dt) (snd st))"
proof -
  have r: "slots_rotated dt (snd st) c m" and cs: "currentSlot (fst st) dt = c"
    using inv by (simp_all add: store_inv_def)
  have c: "c < WL_NUM_SLOTS" using r by (simp add: slots_rotated_def)
  show l: "findLatestSlot dt (snd st) = currentSlot (fst st) dt"
    using slots_rotated_latest [OF r m] cs by simp
  have "readSlotSequence dt c (snd st) \<noteq> WL_INVALID_SEQUENCE"
    using slots_rotated_current [OF r] m by (auto simp: WL_INVALID_SEQUENCE_def)
  then show "readSlot dt (findLatestSlot dt (snd st)) (snd st) =
           Some (rawData dt (currentSlot (fst st) dt) (snd st))"
    using c by (simp add: l cs readSlot_def rawData_def)
qed

lemma begin_wl_fields:
  "currentSlot (begin_wl ee wl) dt = findLatestSlot dt ee"
  "nextSequence (begin_wl ee wl) dt =
     (let latestSequence = readSlotSequence dt (findLatestSlot dt ee) ee
      in if latestSequence = WL_INVALID_SEQUENCE then 1
         else if latestSequence = 0xFFFF then 1 else latestSequence + 1)"
  by (cases dt; simp add: begin_wl_def begin_type_def Let_def)+

lemma store_inv_begin:
  assumes "slots_empty dt ee"
  shows "store_inv dt (begin_wl ee wl, ee) 0 0"
  using assms
  by (simp add: store_inv_def slots_rotated_empty begin_wl_fields findLatestSlot_empty
      slots_emptyD WL_NUM_SLOTS_def)

lemma slots_rotated_zero_empty:
  assumes "slots_rotated dt ee c 0"
  shows "slots_empty dt ee"
proof -
  have "readSlotSequence dt s ee = WL_INVALID_SEQUENCE" if "s < WL_NUM_SLOTS" for s
    using slots_rotatedD [OF assms that] by (simp add: WL_INVALID_SEQUENCE_def unat_eq_0)
  then show ?thesis by (simp add: slots_empty_def list_all_iff)
qed

lemma store_inv_restart:
  assumes r: "slots_rotated dt ee c m"
  shows "store_inv dt (begin_wl ee wl, ee) (if m = 0 then 0 else c) m"
proof (cases "m = 0")
  case True
  then show ?thesis
    using store_inv_begin [OF slots_rotated_zero_empty, of dt ee c wl] r by simp
next
  case False
  then have m: "1 \<le> m" by simp
  let ?q = "readSlotSequence dt c ee"
  have l: "findLatestSlot dt ee = c" by (rule slots_rotated_latest [OF r m])
  have q: "unat ?q = m" by (rule slots_rotated_current [OF r])
  have q0: "?q \<noteq> WL_INVALID_SEQUENCE" "?q \<noteq> 0xFFFF"
    using q m r by (auto simp: WL_INVALID_SEQUENCE_def slots_rotated_def)
  have n: "nextSequence (begin_wl ee wl) dt = ?q + 1"
    using q0 by (simp add: begin_wl_fields l)
  have "unat (?q + 1) = m + 1" if "m < 0xFFFE"
    using q that by (simp add: unat_word_ariths)
  then show ?thesis
    using False r l n by (simp add: store_inv_def begin_wl_fields)
qed

lemma slots_rotated_after_writes:
  assumes "slots_empty dt ee" "length ds = k" "k \<le> 0xFFFE" "c = k mod WL_NUM_SLOTS"
  shows "slots_rotated dt (snd (writeNexts dt ds (begin_wl ee wl, ee))) c k"
proof -
  have "store_inv dt (writeNexts dt ds (begin_wl ee wl, ee))
      ((0 + length ds) mod WL_NUM_SLOTS) (0 + length ds)"
    using assms(2,3) by (intro store_inv_writeNexts store_inv_begin [OF assms(1)]) simp
  then show ?thesis using assms(2,4) by (simp add: store_inv_def)
qed

lemma recovery_writeNexts_from:
  assumes r: "slots_rotated dt ee c m" and n: "m + length ds < 0xFFFE"
    and d: "length d = dataSize (slotConfig dt)"
  shows "readSlot dt (findLatestSlot dt (snd (writeNexts dt (ds @ [d]) (begin_wl ee wl, ee))))
           (snd (writeNexts dt (ds @ [d]) (begin_wl ee wl, ee))) = Some d"
    and "findLatestSlot dt (snd (writeNexts dt (ds @ [d]) (begin_wl ee wl, ee))) =
           currentSlot (fst (writeNexts dt (ds @ [d]) (begin_wl ee wl, ee))) dt"
proof -
  let ?c = "if m = 0 then 0 else c"
  let ?before = "writeNexts dt ds (begin_wl ee wl, ee)"
  let ?after = "writeNext dt d ?before"
  have b: "store_inv dt ?before ((?c + length ds) mod WL_NUM_SLOTS) (m + length ds)"
    using n by (intro store_inv_writeNexts store_inv_restart [OF r]) simp
  have a: "store_inv dt ?after (Suc ((?c + length ds) mod WL_NUM_SLOTS) mod WL_NUM_SLOTS)
      (Suc (m + length ds))"
    using n by (intro store_inv_step [OF b]) simp
  have w: "writeNexts dt (ds @ [d]) (begin_wl ee wl, ee) = ?after"
    by (rule writeNexts_snoc)
  show "findLatestSlot dt (snd (writeNexts dt (ds @ [d]) (begin_wl ee wl, ee))) =
           currentSlot (fst (writeNexts dt (ds @ [d]) (begin_wl ee wl, ee))) dt"
    unfolding w by (rule store_inv_latest(1) [OF a]) simp
  have "readSlot dt (findLatestSlot dt (snd ?after)) (snd ?after) =
      Some (rawData dt (currentSlot (fst ?after) dt) (snd ?after))"
    by (rule store_inv_latest(2) [OF a]) simp
  then show "readSlot dt (findLatestSlot dt (snd (writeNexts dt (ds @ [d]) (begin_wl ee wl, ee))))
           (snd (writeNexts dt (ds @ [d]) (begin_wl ee wl, ee))) = Some d"
    unfolding w by (simp add: writeNext_rawData [OF d])
qed

text \<open>
  Claim C1. Start from storage whose slots of the data type are as \<open>m\<close> earlier writes
  without wraparound leave them (\<open>m = 0\<close>: all slots empty, as in an erased EEPROM), with
  an instance that was constructed and has called \<open>begin()\<close>. After \<open>K \<ge> 1\<close> valid
  writes with \<open>m + K \<le> 65534\<close> (the sequence numbers stay within 1 to \<open>0xFFFE\<close>, so
  that none wraps around), reading returns the last value written. The readers scan the
  storage and use no field of the instance, so this is what a fresh instance reads after
  its \<open>begin()\<close>; the \<open>begin()\<close> of the fresh instance finds the slot the writer
  wrote last.
\<close>

theorem recovery_after_writes:
  "(slots_rotated WL_TIME_FORMAT ee c m \<and> vs \<noteq> [] \<and> m + length vs \<le> 65534 \<and>
    (\<forall>v\<in>set vs. v = 0 \<or> v = 1) \<longrightarrow>
      readTimeFormat (snd (writeTimeFormats vs (begin_wl ee EEPROMWearLeveling_new, ee))) = last vs \<and>
      currentSlot
        (begin_wl (snd (writeTimeFormats vs (begin_wl ee EEPROMWearLeveling_new, ee)))
          EEPROMWearLeveling_new) WL_TIME_FORMAT =
        currentSlot (fst (writeTimeFormats vs (begin_wl ee EEPROMWearLeveling_new, ee)))
          WL_TIME_FORMAT) \<and>
   (slots_rotated WL_POWER_CYCLE ee' c' m' \<and> cs \<noteq> [] \<and> m' + length cs \<le> 65534 \<and>
    (\<forall>x\<in>set cs. x < 0xFFFFFF00) \<longrightarrow>
      readPowerCycleCount (snd (writePowerCycleCounts cs (begin_wl ee' EEPROMWearLeveling_new, ee')))
        = last cs \<and>
      currentSlot
        (begin_wl (snd (writePowerCycleCounts cs (begin_wl ee' EEPROMWearLeveling_new, ee')))
          EEPROMWearLeveling_new) WL_POWER_CYCLE =
        currentSlot (fst (writePowerCycleCounts cs (begin_wl ee' EEPROMWearLeveling_new, ee')))
          WL_POWER_CYCLE)"
proof (intro conjI impI)
  assume h: "slots_rotated WL_TIME_FORMAT ee c m \<and> vs \<noteq> [] \<and> m + length vs \<le> 65534 \<and>
    (\<forall>v\<in>set vs. v = 0 \<or> v = 1)"
  let ?st = "(begin_wl ee EEPROMWearLeveling_new, ee)"
  let ?ds = "map (\<lambda>v. [v]) (butlast vs)"
  have vs: "vs = butlast vs @ [last vs]" using h by simp
  have "map (\<lambda>v. [v]) vs = map (\<lambda>v. [v]) (butlast vs @ [last vs])"
    using vs by simp
  then have ms: "map (\<lambda>v. [v]) vs = ?ds @ [ [last vs] ]" by simp
  have w: "writeTimeFormats vs ?st = writeNexts WL_TIME_FORMAT (?ds @ [ [last vs] ]) ?st"
    using h by (simp add: writeTimeFormats_writeNexts ms)
  have n: "m + length ?ds < 0xFFFE" using h by (cases vs) auto
  have l: "last vs = 0 \<or> last vs = 1" using h by (meson last_in_set)
  have d: "length [last vs] = dataSize (slotConfig WL_TIME_FORMAT)" by simp
  have e: "slots_rotated WL_TIME_FORMAT ee c m" using h by simp
  show "readTimeFormat (snd (writeTimeFormats vs ?st)) = last vs"
    unfolding w readTimeFormat_def
    using recovery_writeNexts_from(1) [OF e n d, of EEPROMWearLeveling_new] l
    by (auto simp: Let_def)
  show "currentSlot (begin_wl (snd (writeTimeFormats vs ?st)) EEPROMWearLeveling_new)
      WL_TIME_FORMAT = currentSlot (fst (writeTimeFormats vs ?st)) WL_TIME_FORMAT"
    unfolding w begin_wl_fields
    by (rule recovery_writeNexts_from(2) [OF e n d])
next
  assume h: "slots_rotated WL_POWER_CYCLE ee' c' m' \<and> cs \<noteq> [] \<and> m' + length cs \<le> 65534 \<and>
    (\<forall>x\<in>set cs. x < 0xFFFFFF00)"
  let ?st = "(begin_wl ee' EEPROMWearLeveling_new, ee')"
  let ?ds = "map bytes_of_ulong (butlast cs)"
  have cs: "cs = butlast cs @ [last cs]" using h by simp
  have "map bytes_of_ulong cs = map bytes_of_ulong (butlast cs @ [last cs])"
    using cs by simp
  then have ms: "map bytes_of_ulong cs = ?ds @ [bytes_of_ulong (last cs)]" by simp
  have w: "writePowerCycleCounts cs ?st =
      writeNexts WL_POWER_CYCLE (?ds @ [bytes_of_ulong (last cs)]) ?st"
    by (simp add: writePowerCycleCounts_writeNexts ms)
  have n: "m' + length ?ds < 0xFFFE" using h by (cases cs) auto
  have l: "last cs < 0xFFFFFF00" using h by (meson last_in_set)
  have d: "length (bytes_of_ulong (last cs)) = dataSize (slotConfig WL_POWER_CYCLE)"
    by (simp add: bytes_of_ulong_def)
  have e: "slots_rotated WL_POWER_CYCLE ee' c' m'" using h by simp
  show "readPowerCycleCount (snd (writePowerCycleCounts cs ?st)) = last cs"
    unfolding w readPowerCycleCount_def
    using recovery_writeNexts_from(1) [OF e n d, of EEPROMWearLeveling_new] l
    by (simp add: Let_def ulong_roundtrip)
  show "currentSlot (begin_wl (snd (writePowerCycleCounts cs ?st)) EEPROMWearLeveling_new)
      WL_POWER_CYCLE = currentSlot (fst (writePowerCycleCounts cs ?st)) WL_POWER_CYCLE"
    unfolding w begin_wl_fields
    by (rule recovery_writeNexts_from(2) [OF e n d])
qed

text \<open>
  The witness: 18 time-format writes (two more than there are slots) on the erased
  EEPROM, and two power-cycle writes on the storage that three earlier writes left.
\<close>

theorem recovery_after_writes_witness:
  "slots_rotated WL_TIME_FORMAT erased 0 0 \<and>
   readTimeFormat (snd (writeTimeFormats [1, 0, 1, 1, 0, 1, 0, 0, 1, 1, 0, 1, 0, 1, 1, 0, 0, 1]
     (begin_wl erased EEPROMWearLeveling_new, erased))) = 1 \<and>
   currentSlot (fst (writeTimeFormats [1, 0, 1, 1, 0, 1, 0, 0, 1, 1, 0, 1, 0, 1, 1, 0, 0, 1]
     (begin_wl erased EEPROMWearLeveling_new, erased))) WL_TIME_FORMAT = 2 \<and>
   currentSlot (begin_wl
     (snd (writeTimeFormats [1, 0, 1, 1, 0, 1, 0, 0, 1, 1, 0, 1, 0, 1, 1, 0, 0, 1]
       (begin_wl erased EEPROMWearLeveling_new, erased))) EEPROMWearLeveling_new)
     WL_TIME_FORMAT = 2 \<and>
   slots_rotated WL_POWER_CYCLE
     (snd (writePowerCycleCounts [10, 20, 300] (begin_wl erased EEPROMWearLeveling_new, erased)))
     3 3 \<and>
   readPowerCycleCount (snd (writePowerCycleCounts [7, 4000000000]
     (begin_wl
        (snd (writePowerCycleCounts [10, 20, 300] (begin_wl erased EEPROMWearLeveling_new, erased)))
        EEPROMWearLeveling_new,
      snd (writePowerCycleCounts [10, 20, 300] (begin_wl erased EEPROMWearLeveling_new, erased)))))
     = 4000000000"
proof -
  let ?vs = "[1, 0, 1, 1, 0, 1, 0, 0, 1, 1, 0, 1, 0, 1, 1, 0, 0, 1] :: 8 word list"
  let ?st = "(begin_wl erased EEPROMWearLeveling_new, erased)"
  let ?ee = "snd (writePowerCycleCounts [10, 20, 300] ?st)"
  let ?cs = "[7, 4000000000] :: 32 word list"
  have e: "slots_empty WL_TIME_FORMAT erased" "slots_empty WL_POWER_CYCLE erased"
    by code_simp+
  have e1: "slots_rotated WL_TIME_FORMAT erased 0 0"
    by (rule slots_rotated_empty [OF e(1)]) (simp add: WL_NUM_SLOTS_def)
  have e2: "slots_rotated WL_POWER_CYCLE ?ee 3 3"
    unfolding writePowerCycleCounts_writeNexts
    by (rule slots_rotated_after_writes [OF e(2)]) (simp_all add: WL_NUM_SLOTS_def)
  have v: "?vs \<noteq> [] \<and> 0 + length ?vs \<le> 65534 \<and> (\<forall>v\<in>set ?vs. v = 0 \<or> v = 1)"
    by simp
  have c: "?cs \<noteq> [] \<and> 3 + length ?cs \<le> 65534 \<and> (\<forall>x\<in>set ?cs. x < 0xFFFFFF00)"
    by simp
  have s: "currentSlot (fst (writeTimeFormats ?vs ?st)) WL_TIME_FORMAT = 2"
    by code_simp
  note tf = recovery_after_writes [of erased 0 0 ?vs ?ee 3 3 ?cs, THEN conjunct1, THEN mp,
      OF conjI [OF e1 v]]
  note pc = recovery_after_writes [of erased 0 0 ?vs ?ee 3 3 ?cs, THEN conjunct2, THEN mp,
      OF conjI [OF e2 c]]
  have a: "readTimeFormat (snd (writeTimeFormats ?vs ?st)) = 1"
    using tf [THEN conjunct1] by (simp del: writeTimeFormats.simps)
  have b: "currentSlot (begin_wl (snd (writeTimeFormats ?vs ?st)) EEPROMWearLeveling_new)
      WL_TIME_FORMAT = 2"
    using tf [THEN conjunct2] by (simp only: s)
  have d: "readPowerCycleCount (snd (writePowerCycleCounts ?cs
      (begin_wl ?ee EEPROMWearLeveling_new, ?ee))) = 4000000000"
    using pc [THEN conjunct1] by (simp del: writePowerCycleCounts.simps)
  show ?thesis using e1 e2 a b d s by blast
qed

text \<open>
  After the 65534 writes that use up the sequence numbers 1 to \<open>0xFFFE\<close>, the
  \<open>begin()\<close> of a fresh instance sets \<open>nextSequence\<close> to the erased pattern.
\<close>

lemma begin_wl_after_last_sequence:
  assumes e: "slots_empty WL_TIME_FORMAT ee" and n: "length vs = 65534"
    and v: "\<forall>x\<in>set vs. x = 0 \<or> x = 1"
  shows "nextSequence
           (begin_wl (snd (writeTimeFormats vs (begin_wl ee EEPROMWearLeveling_new, ee)))
              EEPROMWearLeveling_new) WL_TIME_FORMAT = 0xFFFF"
proof -
  let ?st = "writeTimeFormats vs (begin_wl ee EEPROMWearLeveling_new, ee)"
  have w: "?st = writeNexts WL_TIME_FORMAT (map (\<lambda>v. [v]) vs) (begin_wl ee EEPROMWearLeveling_new, ee)"
    using v by (simp add: writeTimeFormats_writeNexts)
  have "store_inv WL_TIME_FORMAT ?st ((0 + length (map (\<lambda>v. [v]) vs)) mod WL_NUM_SLOTS)
      (0 + length (map (\<lambda>v. [v]) vs))"
    unfolding w using n by (intro store_inv_writeNexts store_inv_begin [OF e]) simp
  then have r: "slots_rotated WL_TIME_FORMAT (snd ?st) (65534 mod WL_NUM_SLOTS) 65534"
    using n by (simp add: store_inv_def)
  let ?q = "readSlotSequence WL_TIME_FORMAT (65534 mod WL_NUM_SLOTS) (snd ?st)"
  have l: "findLatestSlot WL_TIME_FORMAT (snd ?st) = 65534 mod WL_NUM_SLOTS"
    by (rule slots_rotated_latest [OF r]) simp
  have q: "unat ?q = 65534" by (rule slots_rotated_current [OF r])
  then have q1: "?q = 0xFFFE" by (simp add: word_unat_eq_iff)
  show ?thesis
    by (simp add: begin_wl_fields l q1 WL_INVALID_SEQUENCE_def)
qed

subsection \<open>The scan across a wraparound\<close>

text \<open>
  When exactly two slots hold a valid sequence and the scan takes the second for the
  newer one, it returns the second. For the sequences \<open>0xFFFE\<close> and \<open>0x0001\<close> it
  always does: the result is the slot with the higher index, whichever of the two it
  holds.
\<close>

lemma findLatestSlot_loop_skip:
  assumes "\<And>s. slot \<le> s \<Longrightarrow> s < t \<Longrightarrow> readSlotSequence dt s ee = WL_INVALID_SEQUENCE"
    and "slot \<le> t" "t \<le> WL_NUM_SLOTS"
  shows "findLatestSlot_loop dt ee slot h l = findLatestSlot_loop dt ee t h l"
  using assms
proof (induction "t - slot" arbitrary: slot)
  case 0
  then show ?case by simp
next
  case (Suc k)
  then have lt: "slot < WL_NUM_SLOTS" and st: "slot < t" by simp_all
  have "findLatestSlot_loop dt ee slot h l = findLatestSlot_loop dt ee (Suc slot) h l"
    by (rule findLatestSlot_loop_keep [OF lt]) (simp add: Suc.prems(1) [OF _ st])
  also have "\<dots> = findLatestSlot_loop dt ee t h l"
    using Suc.hyps(2) st Suc.prems(1,3) by (intro Suc.hyps(1)) simp_all
  finally show ?case .
qed

lemma findLatestSlot_two_slots:
  assumes p: "p < q" "q < WL_NUM_SLOTS"
    and sp: "readSlotSequence dt p ee = x" "x \<noteq> 0"
    and sq: "readSlotSequence dt q ee = y" "y \<noteq> 0"
    and newer: "y > x \<or> (x > 0xF000 \<and> y < 0x1000)"
    and rest: "\<And>s. s < WL_NUM_SLOTS \<Longrightarrow> s \<noteq> p \<Longrightarrow> s \<noteq> q \<Longrightarrow>
        readSlotSequence dt s ee = WL_INVALID_SEQUENCE"
  shows "findLatestSlot dt ee = q"
proof -
  have pN: "p < WL_NUM_SLOTS" using p by simp
  have "findLatestSlot dt ee = findLatestSlot_loop dt ee p WL_INVALID_SEQUENCE 0"
    unfolding findLatestSlot_def using p
    by (intro findLatestSlot_loop_skip rest) simp_all
  also have "\<dots> = findLatestSlot_loop dt ee (Suc p) x p"
    using findLatestSlot_loop_take [OF pN, of dt ee WL_INVALID_SEQUENCE 0] sp
    by (simp add: WL_INVALID_SEQUENCE_def)
  also have "\<dots> = findLatestSlot_loop dt ee q x p"
    using p by (intro findLatestSlot_loop_skip rest) simp_all
  also have "\<dots> = findLatestSlot_loop dt ee (Suc q) y q"
    using findLatestSlot_loop_take [OF p(2), of dt ee x p] sq newer
    by (simp add: WL_INVALID_SEQUENCE_def)
  also have "\<dots> = findLatestSlot_loop dt ee WL_NUM_SLOTS y q"
    using p by (intro findLatestSlot_loop_skip rest) simp_all
  also have "\<dots> = q" by (simp add: findLatestSlot_loop_done)
  finally show ?thesis .
qed

lemma findLatestSlot_wraparound_pair:
  assumes "a < WL_NUM_SLOTS" "b < WL_NUM_SLOTS" "a \<noteq> b"
    and "readSlotSequence dt a ee = 0xFFFE" "readSlotSequence dt b ee = 0x0001"
    and rest: "\<And>s. s < WL_NUM_SLOTS \<Longrightarrow> s \<noteq> a \<Longrightarrow> s \<noteq> b \<Longrightarrow>
        readSlotSequence dt s ee = WL_INVALID_SEQUENCE"
  shows "findLatestSlot dt ee = max a b"
proof (cases "a < b")
  case True
  have "findLatestSlot dt ee = b"
    by (rule findLatestSlot_two_slots [OF True assms(2) assms(4) _ assms(5)])
       (simp_all add: rest)
  then show ?thesis using True by simp
next
  case False
  then have ba: "b < a" using assms(3) by simp
  have "findLatestSlot dt ee = a"
    by (rule findLatestSlot_two_slots [OF ba assms(1) assms(5) _ assms(4)])
       (simp_all add: rest)
  then show ?thesis using ba by simp
qed

text \<open>
  Claim C2, evaluated on the code. The time-format slots hold sequence \<open>0xFFFE\<close> in
  slot 15, \<open>0xFFFF\<close> in slot 14 and \<open>0x0001\<close> in slot 0 (the rotation continues from
  slot 15 to slot 0), all other slots erased. The scan reads slot 0 first, and the later
  \<open>0xFFFE\<close> wins the comparison \<open>sequence > highestSequence\<close>: the scan selects
  slot 15, not the slot holding \<open>0x0001\<close>.
\<close>

theorem findLatestSlot_wraparound_selects_high:
  "readSlotSequence WL_TIME_FORMAT 15
     (writeSlot WL_TIME_FORMAT 0 0x0001 [1]
       (writeSlot WL_TIME_FORMAT 14 0xFFFF [0]
         (writeSlot WL_TIME_FORMAT 15 0xFFFE [0] erased))) = 0xFFFE \<and>
   readSlotSequence WL_TIME_FORMAT 14
     (writeSlot WL_TIME_FORMAT 0 0x0001 [1]
       (writeSlot WL_TIME_FORMAT 14 0xFFFF [0]
         (writeSlot WL_TIME_FORMAT 15 0xFFFE [0] erased))) = WL_INVALID_SEQUENCE \<and>
   readSlotSequence WL_TIME_FORMAT 0
     (writeSlot WL_TIME_FORMAT 0 0x0001 [1]
       (writeSlot WL_TIME_FORMAT 14 0xFFFF [0]
         (writeSlot WL_TIME_FORMAT 15 0xFFFE [0] erased))) = 0x0001 \<and>
   findLatestSlot WL_TIME_FORMAT
     (writeSlot WL_TIME_FORMAT 0 0x0001 [1]
       (writeSlot WL_TIME_FORMAT 14 0xFFFF [0]
         (writeSlot WL_TIME_FORMAT 15 0xFFFE [0] erased))) = 15 \<and>
   currentSlot (begin_wl
     (writeSlot WL_TIME_FORMAT 0 0x0001 [1]
       (writeSlot WL_TIME_FORMAT 14 0xFFFF [0]
         (writeSlot WL_TIME_FORMAT 15 0xFFFE [0] erased))) EEPROMWearLeveling_new)
     WL_TIME_FORMAT = 15 \<and>
   readTimeFormat
     (writeSlot WL_TIME_FORMAT 0 0x0001 [1]
       (writeSlot WL_TIME_FORMAT 14 0xFFFF [0]
         (writeSlot WL_TIME_FORMAT 15 0xFFFE [0] erased))) = 0"
  by code_simp

subsection \<open>The sequence number after \<open>begin()\<close>\<close>

text \<open>
  A write keeps \<open>nextSequence\<close> within 1 to \<open>0xFFFE\<close>. \<open>begin()\<close> sets it to the
  erased pattern \<open>0xFFFF\<close> exactly when the latest slot holds \<open>0xFFFE\<close>.
\<close>

lemma writeNext_nextSequence_range:
  assumes "1 \<le> unat (nextSequence (fst st) dt)" "unat (nextSequence (fst st) dt) \<le> 0xFFFE"
  shows "1 \<le> unat (nextSequence (fst (writeNext dt d st)) dt) \<and>
         unat (nextSequence (fst (writeNext dt d st)) dt) \<le> 0xFFFE"
proof -
  let ?q = "nextSequence (fst st) dt"
  have u: "unat (?q + 1) = unat ?q + 1"
    using assms by (simp add: unat_word_ariths)
  show ?thesis
  proof (cases "?q + 1 = 0xFFFF")
    case True
    then show ?thesis by (simp add: writeNext_def Let_def)
  next
    case False
    then have "unat (?q + 1) \<noteq> 0xFFFF" by (simp add: word_unat_eq_iff)
    moreover have "?q + 1 \<noteq> 0" using u by auto
    ultimately show ?thesis
      using False u assms by (simp add: writeNext_def Let_def WL_INVALID_SEQUENCE_def)
  qed
qed

lemma begin_wl_nextSequence_range:
  "1 \<le> unat (nextSequence (begin_wl ee wl) dt) \<and>
   (nextSequence (begin_wl ee wl) dt = 0xFFFF \<longleftrightarrow>
      readSlotSequence dt (findLatestSlot dt ee) ee = 0xFFFE)"
proof -
  let ?q = "readSlotSequence dt (findLatestSlot dt ee) ee"
  have ne: "?q \<noteq> 0xFFFF"
    by (simp add: readSlotSequence_raw)
  show ?thesis
  proof (cases "?q = 0")
    case True
    then show ?thesis by (simp add: begin_wl_fields WL_INVALID_SEQUENCE_def)
  next
    case False
    have "unat ?q \<noteq> 0xFFFF" using ne by (simp add: word_unat_eq_iff)
    moreover have "unat ?q < 65536" using unsigned_less [of ?q, where ?'a = nat] by simp
    ultimately have u: "unat (?q + 1) = unat ?q + 1"
      by (simp add: unat_word_ariths)
    have "(?q + 1 = 0xFFFF) = (?q = 0xFFFE)"
      by (simp add: word_unat_eq_iff u)
    then show ?thesis
      using False ne u by (simp add: begin_wl_fields WL_INVALID_SEQUENCE_def)
  qed
qed

text \<open>
  Claim C3, evaluated on the code. The storage holds sequence \<open>0xFFFE\<close> in time-format
  slot 0 and is erased elsewhere. \<open>begin()\<close> reads \<open>0xFFFE\<close> as the latest sequence;
  its test for \<open>0xFFFF\<close> is on the sequence read, which is never \<open>0xFFFF\<close>, so it sets
  \<open>nextSequence\<close> to \<open>0xFFFF\<close>. The next \<open>writeTimeFormat(1)\<close> stores \<open>0xFFFF\<close> in
  slot 1, which reads back as empty: the format 1 is lost and the old format 0 is read.
\<close>

theorem begin_wl_next_sequence_erased_pattern:
  "nextSequence (begin_wl (writeSlot WL_TIME_FORMAT 0 0xFFFE [0] erased) EEPROMWearLeveling_new)
     WL_TIME_FORMAT = 0xFFFF \<and>
   rawSequence WL_TIME_FORMAT 1
     (snd (writeTimeFormat 1
       (begin_wl (writeSlot WL_TIME_FORMAT 0 0xFFFE [0] erased) EEPROMWearLeveling_new,
        writeSlot WL_TIME_FORMAT 0 0xFFFE [0] erased))) = 0xFFFF \<and>
   rawData WL_TIME_FORMAT 1
     (snd (writeTimeFormat 1
       (begin_wl (writeSlot WL_TIME_FORMAT 0 0xFFFE [0] erased) EEPROMWearLeveling_new,
        writeSlot WL_TIME_FORMAT 0 0xFFFE [0] erased))) = [1] \<and>
   readSlotSequence WL_TIME_FORMAT 1
     (snd (writeTimeFormat 1
       (begin_wl (writeSlot WL_TIME_FORMAT 0 0xFFFE [0] erased) EEPROMWearLeveling_new,
        writeSlot WL_TIME_FORMAT 0 0xFFFE [0] erased))) = WL_INVALID_SEQUENCE \<and>
   readTimeFormat
     (snd (writeTimeFormat 1
       (begin_wl (writeSlot WL_TIME_FORMAT 0 0xFFFE [0] erased) EEPROMWearLeveling_new,
        writeSlot WL_TIME_FORMAT 0 0xFFFE [0] erased))) = 0"
  by code_simp

section \<open>Properties of the stability filter\<close>

subsection \<open>The guards of the getters\<close>

text \<open>
  Claim C8. With fewer than \<open>GPS_FILTER_MIN_READINGS\<close> = 3 samples collected, each
  getter returns the raw value of the GPS module, with no sorting, trimming or averaging;
  that is the case of a new filter and of a filter after one \<open>update\<close>. Called right
  after an \<open>update\<close> that stored the module's valid data, the raw value is the sample
  just stored.
\<close>

theorem getFiltered_cold_start:
  "(totalReadings f < GPS_FILTER_MIN_READINGS \<longrightarrow>
      getFilteredLatitude g f = location_lat g \<and>
      getFilteredLongitude g f = location_lng g \<and>
      getFilteredAltitude g f = altitude_feet g) \<and>
   totalReadings GpsStabilityFilter_new < GPS_FILTER_MIN_READINGS \<and>
   totalReadings (update g' GpsStabilityFilter_new) < GPS_FILTER_MIN_READINGS \<and>
   (location_isValid g' \<and> altitude_isValid g' \<longrightarrow>
      getFilteredLatitude g' (update g' GpsStabilityFilter_new) =
        latReadings (update g' GpsStabilityFilter_new) ! 0 \<and>
      getFilteredLongitude g' (update g' GpsStabilityFilter_new) =
        lonReadings (update g' GpsStabilityFilter_new) ! 0 \<and>
      getFilteredAltitude g' (update g' GpsStabilityFilter_new) =
        altReadings (update g' GpsStabilityFilter_new) ! 0)"
  by (simp add: getFilteredLatitude_def getFilteredLongitude_def getFilteredAltitude_def
      GpsStabilityFilter_new_def update_def GPS_FILTER_MIN_READINGS_def
      GPS_FILTER_WINDOW_SIZE_def)

text \<open>
  The witness: after one update, the getters return the values of the module they are
  called with, which are the stored sample when the module has not changed.
\<close>

theorem getFiltered_cold_start_witness:
  "totalReadings (update (fix_at 1 2 3) GpsStabilityFilter_new) < GPS_FILTER_MIN_READINGS \<and>
   getFilteredLatitude (fix_at 4 5 6) (update (fix_at 1 2 3) GpsStabilityFilter_new) = 4 \<and>
   getFilteredLongitude (fix_at 4 5 6) (update (fix_at 1 2 3) GpsStabilityFilter_new) = 5 \<and>
   getFilteredAltitude (fix_at 4 5 6) (update (fix_at 1 2 3) GpsStabilityFilter_new) = 6 \<and>
   location_isValid (fix_at 1 2 3) \<and> altitude_isValid (fix_at 1 2 3) \<and>
   getFilteredLatitude (fix_at 1 2 3) (update (fix_at 1 2 3) GpsStabilityFilter_new) =
     latReadings (update (fix_at 1 2 3) GpsStabilityFilter_new) ! 0 \<and>
   latReadings (update (fix_at 1 2 3) GpsStabilityFilter_new) ! 0 = 1"
proof -
  have v: "location_isValid (fix_at 1 2 3) \<and> altitude_isValid (fix_at 1 2 3)"
    by (simp add: fix_at_def)
  have s: "latReadings (update (fix_at 1 2 3) GpsStabilityFilter_new) ! 0 = 1"
    by code_simp
  note t = getFiltered_cold_start [of "update (fix_at 1 2 3) GpsStabilityFilter_new"
      "fix_at 4 5 6" "fix_at 1 2 3"]
  have n: "totalReadings (update (fix_at 1 2 3) GpsStabilityFilter_new) < GPS_FILTER_MIN_READINGS"
    using t by blast
  have a: "getFilteredLatitude (fix_at 4 5 6) (update (fix_at 1 2 3) GpsStabilityFilter_new) = 4 \<and>
      getFilteredLongitude (fix_at 4 5 6) (update (fix_at 1 2 3) GpsStabilityFilter_new) = 5 \<and>
      getFilteredAltitude (fix_at 4 5 6) (update (fix_at 1 2 3) GpsStabilityFilter_new) = 6"
    using t [THEN conjunct1, THEN mp, OF n] by (simp add: fix_at_def)
  have b: "getFilteredLatitude (fix_at 1 2 3) (update (fix_at 1 2 3) GpsStabilityFilter_new) =
      latReadings (update (fix_at 1 2 3) GpsStabilityFilter_new) ! 0"
    using t v by blast
  show ?thesis using n a b v s by blast
qed

text \<open>
  Claim C10. Whatever the filter holds, also three samples or more: when the GPS module
  reports its location as invalid, \<open>getFilteredLatitude\<close> and \<open>getFilteredLongitude\<close>
  return the raw value of the module, and when it reports its altitude as invalid,
  \<open>getFilteredAltitude\<close> does; the buffers are not read. The filtering body runs only
  when three samples or more are collected and the module reports valid data.
\<close>

theorem getFiltered_invalid_fix_raw:
  "(\<not> location_isValid g \<longrightarrow>
      getFilteredLatitude g f = location_lat g \<and> getFilteredLongitude g f = location_lng g) \<and>
   (\<not> altitude_isValid g \<longrightarrow> getFilteredAltitude g f = altitude_feet g) \<and>
   (location_isValid g \<and> GPS_FILTER_MIN_READINGS \<le> totalReadings f \<longrightarrow>
      getFilteredLatitude g f = filterReadings (latReadings f) (totalReadings f) (location_lat g) \<and>
      getFilteredLongitude g f = filterReadings (lonReadings f) (totalReadings f) (location_lng g)) \<and>
   (altitude_isValid g \<and> GPS_FILTER_MIN_READINGS \<le> totalReadings f \<longrightarrow>
      getFilteredAltitude g f = filterReadings (altReadings f) (totalReadings f) (altitude_feet g))"
  by (simp add: getFilteredLatitude_def getFilteredLongitude_def getFilteredAltitude_def)

text \<open>
  The witness: a filter holding three samples, called once with a module that reports
  both location and altitude as invalid, and once with a valid fix.
\<close>

theorem getFiltered_invalid_fix_raw_witness:
  "\<not> location_isValid \<lparr>location_isValid = False, location_lat = 7, location_lng = 8,
        altitude_isValid = False, altitude_feet = 9\<rparr> \<and>
   \<not> altitude_isValid \<lparr>location_isValid = False, location_lat = 7, location_lng = 8,
        altitude_isValid = False, altitude_feet = 9\<rparr> \<and>
   GPS_FILTER_MIN_READINGS \<le> totalReadings
     (updates [fix_at 1 10 100, fix_at 2 20 200, fix_at 3 30 300] GpsStabilityFilter_new) \<and>
   getFilteredLatitude \<lparr>location_isValid = False, location_lat = 7, location_lng = 8,
        altitude_isValid = False, altitude_feet = 9\<rparr>
     (updates [fix_at 1 10 100, fix_at 2 20 200, fix_at 3 30 300] GpsStabilityFilter_new) = 7 \<and>
   getFilteredLongitude \<lparr>location_isValid = False, location_lat = 7, location_lng = 8,
        altitude_isValid = False, altitude_feet = 9\<rparr>
     (updates [fix_at 1 10 100, fix_at 2 20 200, fix_at 3 30 300] GpsStabilityFilter_new) = 8 \<and>
   getFilteredAltitude \<lparr>location_isValid = False, location_lat = 7, location_lng = 8,
        altitude_isValid = False, altitude_feet = 9\<rparr>
     (updates [fix_at 1 10 100, fix_at 2 20 200, fix_at 3 30 300] GpsStabilityFilter_new) = 9 \<and>
   location_isValid (fix_at 7 8 9) \<and> altitude_isValid (fix_at 7 8 9) \<and>
   getFilteredLatitude (fix_at 7 8 9)
     (updates [fix_at 1 10 100, fix_at 2 20 200, fix_at 3 30 300] GpsStabilityFilter_new) = 2 \<and>
   getFilteredLongitude (fix_at 7 8 9)
     (updates [fix_at 1 10 100, fix_at 2 20 200, fix_at 3 30 300] GpsStabilityFilter_new) = 20 \<and>
   getFilteredAltitude (fix_at 7 8 9)
     (updates [fix_at 1 10 100, fix_at 2 20 200, fix_at 3 30 300] GpsStabilityFilter_new) = 200"
proof -
  let ?f = "updates [fix_at 1 10 100, fix_at 2 20 200, fix_at 3 30 300] GpsStabilityFilter_new"
  let ?bad = "\<lparr>location_isValid = False, location_lat = 7, location_lng = 8,
        altitude_isValid = False, altitude_feet = 9\<rparr>"
  have n: "GPS_FILTER_MIN_READINGS \<le> totalReadings ?f" by code_simp
  have v: "location_isValid (fix_at 7 8 9) \<and> altitude_isValid (fix_at 7 8 9)"
    by (simp add: fix_at_def)
  have la: "filterReadings (latReadings ?f) (totalReadings ?f) (location_lat (fix_at 7 8 9)) = 2"
    by code_simp
  have lo: "filterReadings (lonReadings ?f) (totalReadings ?f) (location_lng (fix_at 7 8 9)) = 20"
    by code_simp
  have al: "filterReadings (altReadings ?f) (totalReadings ?f) (altitude_feet (fix_at 7 8 9)) = 200"
    by code_simp
  have bad: "getFilteredLatitude ?bad ?f = 7 \<and> getFilteredLongitude ?bad ?f = 8 \<and>
      getFilteredAltitude ?bad ?f = 9"
    using getFiltered_invalid_fix_raw [of ?bad ?f] by simp
  have good: "getFilteredLatitude (fix_at 7 8 9) ?f = 2 \<and>
      getFilteredLongitude (fix_at 7 8 9) ?f = 20 \<and> getFilteredAltitude (fix_at 7 8 9) ?f = 200"
    using getFiltered_invalid_fix_raw [of "fix_at 7 8 9" ?f] n v la lo al by simp
  show ?thesis using n v bad good by simp
qed

subsection \<open>The ring of samples\<close>

lemma ring_pos_distinct:
  assumes "j < k" "k < j + GPS_FILTER_WINDOW_SIZE"
  shows "j mod GPS_FILTER_WINDOW_SIZE \<noteq> k mod GPS_FILTER_WINDOW_SIZE"
proof
  assume "j mod GPS_FILTER_WINDOW_SIZE = k mod GPS_FILTER_WINDOW_SIZE"
  then have "GPS_FILTER_WINDOW_SIZE dvd k - j"
    using assms(1) by (metis less_imp_le_nat mod_eq_dvd_iff_nat)
  then have "GPS_FILTER_WINDOW_SIZE \<le> k - j"
    using assms(1) by (intro dvd_imp_le) simp_all
  then show False using assms by simp
qed

lemma updates_snoc: "updates (gs @ [g]) f = update g (updates gs f)"
  by (induction gs arbitrary: f) simp_all

lemma ring_inv_new: "ring_inv [] GpsStabilityFilter_new"
  by (simp add: ring_inv_def GpsStabilityFilter_new_def GPS_FILTER_WINDOW_SIZE_def)

lemma ring_inv_update:
  assumes inv: "ring_inv gs f" and v: "location_isValid g" "altitude_isValid g"
  shows "ring_inv (gs @ [g]) (update g f)"
proof -
  let ?W = GPS_FILTER_WINDOW_SIZE
  let ?k = "length gs"
  have W: "0 < ?W" by (simp add: GPS_FILTER_WINDOW_SIZE_def)
  have ci: "currentIndex f = ?k mod ?W" and tr: "totalReadings f = min ?k ?W"
    and len: "length (latReadings f) = ?W" "length (lonReadings f) = ?W"
      "length (altReadings f) = ?W"
    using inv by (simp_all add: ring_inv_def)
  have old: "latReadings f ! (j mod ?W) = location_lat (gs ! j) \<and>
        lonReadings f ! (j mod ?W) = location_lng (gs ! j) \<and>
        altReadings f ! (j mod ?W) = altitude_feet (gs ! j)"
    if "j < ?k" "?k \<le> j + ?W" for j
    using inv that by (simp add: ring_inv_def)
  have u: "update g f = f\<lparr>latReadings := (latReadings f)[?k mod ?W := location_lat g],
             lonReadings := (lonReadings f)[?k mod ?W := location_lng g],
             altReadings := (altReadings f)[?k mod ?W := altitude_feet g],
             currentIndex := (?k mod ?W + 1) mod ?W,
             totalReadings := (if min ?k ?W < ?W then min ?k ?W + 1 else min ?k ?W)\<rparr>"
    using v by (simp add: update_def ci tr)
  have kW: "?k mod ?W < ?W" using W by simp
  have a: "currentIndex (update g f) = length (gs @ [g]) mod ?W"
    unfolding u by (simp add: mod_simps)
  have b: "totalReadings (update g f) = min (length (gs @ [g])) ?W"
    unfolding u by auto
  have c: "length (latReadings (update g f)) = ?W" "length (lonReadings (update g f)) = ?W"
    "length (altReadings (update g f)) = ?W"
    unfolding u by (simp_all add: len)
  have d: "latReadings (update g f) ! (j mod ?W) = location_lat ((gs @ [g]) ! j) \<and>
        lonReadings (update g f) ! (j mod ?W) = location_lng ((gs @ [g]) ! j) \<and>
        altReadings (update g f) ! (j mod ?W) = altitude_feet ((gs @ [g]) ! j)"
    if j: "j < length (gs @ [g])" "length (gs @ [g]) \<le> j + ?W" for j
  proof (cases "j = ?k")
    case True
    then show ?thesis unfolding u using kW by (simp add: len)
  next
    case False
    then have jk: "j < ?k" "?k < j + ?W" using j by simp_all
    have ne: "j mod ?W \<noteq> ?k mod ?W" by (rule ring_pos_distinct [OF jk])
    have "?k \<le> j + ?W" using jk by simp
    from old [OF jk(1) this] show ?thesis
      unfolding u using ne jk by (simp add: nth_append)
  qed
  show ?thesis
    unfolding ring_inv_def using a b c d by blast
qed

lemma ring_inv_updates:
  "\<forall>g\<in>set gs. location_isValid g \<and> altitude_isValid g \<Longrightarrow>
     ring_inv gs (updates gs GpsStabilityFilter_new)"
proof (induction gs rule: rev_induct)
  case Nil
  show ?case by (simp add: ring_inv_new)
next
  case (snoc g gs)
  then show ?case by (simp add: updates_snoc ring_inv_update)
qed

lemma ring_positions:
  assumes "GPS_FILTER_WINDOW_SIZE \<le> K"
  shows "(\<lambda>j. j mod GPS_FILTER_WINDOW_SIZE) ` {K - GPS_FILTER_WINDOW_SIZE..<K} =
           {0..<GPS_FILTER_WINDOW_SIZE}"
    and "inj_on (\<lambda>j. j mod GPS_FILTER_WINDOW_SIZE) {K - GPS_FILTER_WINDOW_SIZE..<K}"
proof -
  let ?W = GPS_FILTER_WINDOW_SIZE
  have W: "0 < ?W" by (simp add: GPS_FILTER_WINDOW_SIZE_def)
  show inj: "inj_on (\<lambda>j. j mod ?W) {K - ?W..<K}"
  proof (rule inj_onI)
    fix x y assume x: "x \<in> {K - ?W..<K}" and y: "y \<in> {K - ?W..<K}"
      and e: "x mod ?W = y mod ?W"
    show "x = y"
    proof (rule ccontr)
      assume "x \<noteq> y"
      then consider "x < y" | "y < x" by linarith
      then show False
      proof cases
        case 1
        moreover have "y < x + ?W" using x y assms by auto
        ultimately show False using ring_pos_distinct [of x y] e by simp
      next
        case 2
        moreover have "x < y + ?W" using x y assms by auto
        ultimately show False using ring_pos_distinct [of y x] e by simp
      qed
    qed
  qed
  show "(\<lambda>j. j mod ?W) ` {K - ?W..<K} = {0..<?W}"
  proof (rule card_subset_eq)
    show "finite {0..<?W}" by simp
    show "(\<lambda>j. j mod ?W) ` {K - ?W..<K} \<subseteq> {0..<?W}" using W by auto
    show "card ((\<lambda>j. j mod ?W) ` {K - ?W..<K}) = card {0..<?W}"
      using assms by (simp add: card_image [OF inj])
  qed
qed

lemma ring_mset:
  assumes len: "length buf = GPS_FILTER_WINDOW_SIZE" and K: "GPS_FILTER_WINDOW_SIZE \<le> length gs"
    and idx: "\<And>j. j < length gs \<Longrightarrow> length gs \<le> j + GPS_FILTER_WINDOW_SIZE \<Longrightarrow>
        buf ! (j mod GPS_FILTER_WINDOW_SIZE) = smp (gs ! j)"
  shows "mset buf = mset (map smp (drop (length gs - GPS_FILTER_WINDOW_SIZE) gs))"
proof -
  let ?W = GPS_FILTER_WINDOW_SIZE
  let ?K = "length gs"
  have "map ((!) buf) [0..<?W] = buf"
    using map_nth [of buf] len by simp
  then have "mset buf = mset (map ((!) buf) [0..<?W])"
    by simp
  also have "\<dots> = image_mset ((!) buf) (mset_set {0..<?W})"
    by (simp only: mset_map mset_upt)
  also have "\<dots> = image_mset ((!) buf) (mset_set ((\<lambda>j. j mod ?W) ` {?K - ?W..<?K}))"
    by (simp only: ring_positions(1) [OF K])
  also have "\<dots> = image_mset ((!) buf) (image_mset (\<lambda>j. j mod ?W) (mset_set {?K - ?W..<?K}))"
    by (simp only: image_mset_mset_set [OF ring_positions(2) [OF K]])
  also have "\<dots> = image_mset (\<lambda>j. buf ! (j mod ?W)) (mset_set {?K - ?W..<?K})"
    by (simp add: multiset.map_comp comp_def)
  also have "\<dots> = image_mset (\<lambda>j. smp (gs ! j)) (mset_set {?K - ?W..<?K})"
    using K by (intro image_mset_cong idx) auto
  also have "\<dots> = mset (map (\<lambda>j. smp (gs ! j)) [?K - ?W..<?K])"
    by (simp only: mset_map mset_upt)
  also have "map (\<lambda>j. smp (gs ! j)) [?K - ?W..<?K] = map smp (drop (?K - ?W) gs)"
    by (rule nth_equalityI) simp_all
  finally show ?thesis .
qed

text \<open>
  Claim C7. An \<open>update\<close> with valid GPS data stores the three samples at the shared
  cursor, leaves the other cells as they are, advances the cursor modulo \<open>W\<close> = 12 and
  increments the fill counter unless it is \<open>W\<close> already. After \<open>K \<ge> W\<close> such updates
  of a new filter the counter is \<open>W\<close>, sample \<open>j\<close> of the last \<open>W\<close> is in cell
  \<open>j mod W\<close>, and each buffer holds exactly the last \<open>W\<close> samples of its channel.
\<close>

theorem ring_buffer_overwrite:
  "(location_isValid g \<and> altitude_isValid g \<longrightarrow>
      currentIndex (update g f) = (currentIndex f + 1) mod GPS_FILTER_WINDOW_SIZE \<and>
      totalReadings (update g f) =
        (if totalReadings f < GPS_FILTER_WINDOW_SIZE then totalReadings f + 1 else totalReadings f) \<and>
      (currentIndex f < length (latReadings f) \<longrightarrow>
         latReadings (update g f) ! currentIndex f = location_lat g) \<and>
      (currentIndex f < length (lonReadings f) \<longrightarrow>
         lonReadings (update g f) ! currentIndex f = location_lng g) \<and>
      (currentIndex f < length (altReadings f) \<longrightarrow>
         altReadings (update g f) ! currentIndex f = altitude_feet g) \<and>
      (i \<noteq> currentIndex f \<longrightarrow>
         latReadings (update g f) ! i = latReadings f ! i \<and>
         lonReadings (update g f) ! i = lonReadings f ! i \<and>
         altReadings (update g f) ! i = altReadings f ! i)) \<and>
   ((\<forall>x\<in>set gs. location_isValid x \<and> altitude_isValid x) \<and>
    GPS_FILTER_WINDOW_SIZE \<le> length gs \<longrightarrow>
      getTotalReadings (updates gs GpsStabilityFilter_new) = GPS_FILTER_WINDOW_SIZE \<and>
      currentIndex (updates gs GpsStabilityFilter_new) = length gs mod GPS_FILTER_WINDOW_SIZE \<and>
      length (latReadings (updates gs GpsStabilityFilter_new)) = GPS_FILTER_WINDOW_SIZE \<and>
      length (lonReadings (updates gs GpsStabilityFilter_new)) = GPS_FILTER_WINDOW_SIZE \<and>
      length (altReadings (updates gs GpsStabilityFilter_new)) = GPS_FILTER_WINDOW_SIZE \<and>
      (j < length gs \<and> length gs \<le> j + GPS_FILTER_WINDOW_SIZE \<longrightarrow>
         latReadings (updates gs GpsStabilityFilter_new) ! (j mod GPS_FILTER_WINDOW_SIZE) =
           location_lat (gs ! j) \<and>
         lonReadings (updates gs GpsStabilityFilter_new) ! (j mod GPS_FILTER_WINDOW_SIZE) =
           location_lng (gs ! j) \<and>
         altReadings (updates gs GpsStabilityFilter_new) ! (j mod GPS_FILTER_WINDOW_SIZE) =
           altitude_feet (gs ! j)) \<and>
      mset (latReadings (updates gs GpsStabilityFilter_new)) =
        mset (map location_lat (drop (length gs - GPS_FILTER_WINDOW_SIZE) gs)) \<and>
      mset (lonReadings (updates gs GpsStabilityFilter_new)) =
        mset (map location_lng (drop (length gs - GPS_FILTER_WINDOW_SIZE) gs)) \<and>
      mset (altReadings (updates gs GpsStabilityFilter_new)) =
        mset (map altitude_feet (drop (length gs - GPS_FILTER_WINDOW_SIZE) gs)))"
proof (intro conjI impI)
  assume h: "(\<forall>x\<in>set gs. location_isValid x \<and> altitude_isValid x) \<and>
    GPS_FILTER_WINDOW_SIZE \<le> length gs"
  let ?f = "updates gs GpsStabilityFilter_new"
  have inv: "ring_inv gs ?f" using h by (simp add: ring_inv_updates)
  have K: "GPS_FILTER_WINDOW_SIZE \<le> length gs" using h by simp
  show "getTotalReadings ?f = GPS_FILTER_WINDOW_SIZE"
    using inv K by (simp add: ring_inv_def getTotalReadings_def)
  show "currentIndex ?f = length gs mod GPS_FILTER_WINDOW_SIZE"
    using inv by (simp add: ring_inv_def)
  show len: "length (latReadings ?f) = GPS_FILTER_WINDOW_SIZE"
    "length (lonReadings ?f) = GPS_FILTER_WINDOW_SIZE"
    "length (altReadings ?f) = GPS_FILTER_WINDOW_SIZE"
    using inv by (simp_all add: ring_inv_def)
  have idx: "latReadings ?f ! (k mod GPS_FILTER_WINDOW_SIZE) = location_lat (gs ! k) \<and>
     lonReadings ?f ! (k mod GPS_FILTER_WINDOW_SIZE) = location_lng (gs ! k) \<and>
     altReadings ?f ! (k mod GPS_FILTER_WINDOW_SIZE) = altitude_feet (gs ! k)"
    if "k < length gs" "length gs \<le> k + GPS_FILTER_WINDOW_SIZE" for k
    using inv that by (simp add: ring_inv_def)
  show "mset (latReadings ?f) =
      mset (map location_lat (drop (length gs - GPS_FILTER_WINDOW_SIZE) gs))"
    by (rule ring_mset [OF len(1) K]) (simp add: idx)
  show "mset (lonReadings ?f) =
      mset (map location_lng (drop (length gs - GPS_FILTER_WINDOW_SIZE) gs))"
    by (rule ring_mset [OF len(2) K]) (simp add: idx)
  show "mset (altReadings ?f) =
      mset (map altitude_feet (drop (length gs - GPS_FILTER_WINDOW_SIZE) gs))"
    by (rule ring_mset [OF len(3) K]) (simp add: idx)
  assume "j < length gs \<and> length gs \<le> j + GPS_FILTER_WINDOW_SIZE"
  then show "latReadings ?f ! (j mod GPS_FILTER_WINDOW_SIZE) = location_lat (gs ! j)"
    "lonReadings ?f ! (j mod GPS_FILTER_WINDOW_SIZE) = location_lng (gs ! j)"
    "altReadings ?f ! (j mod GPS_FILTER_WINDOW_SIZE) = altitude_feet (gs ! j)"
    using idx [of j] by simp_all
qed (simp_all add: update_def)

text \<open>
  The witness: \<open>W + 5\<close> = 17 updates with latitudes 1 to 17; the buffer holds 6 to 17,
  the newest in cell 4.
\<close>

theorem ring_buffer_overwrite_witness:
  "getTotalReadings (updates (map (\<lambda>x. fix_at x (- x) (2 * x))
       [1, 2, 3, 4, 5, 6, 7, 8, 9, 10, 11, 12, 13, 14, 15, 16, 17]) GpsStabilityFilter_new) = 12 \<and>
   currentIndex (updates (map (\<lambda>x. fix_at x (- x) (2 * x))
       [1, 2, 3, 4, 5, 6, 7, 8, 9, 10, 11, 12, 13, 14, 15, 16, 17]) GpsStabilityFilter_new) = 5 \<and>
   latReadings (updates (map (\<lambda>x. fix_at x (- x) (2 * x))
       [1, 2, 3, 4, 5, 6, 7, 8, 9, 10, 11, 12, 13, 14, 15, 16, 17]) GpsStabilityFilter_new) ! 4 = 17 \<and>
   mset (latReadings (updates (map (\<lambda>x. fix_at x (- x) (2 * x))
       [1, 2, 3, 4, 5, 6, 7, 8, 9, 10, 11, 12, 13, 14, 15, 16, 17]) GpsStabilityFilter_new)) =
     mset [6, 7, 8, 9, 10, 11, 12, 13, 14, 15, 16, 17] \<and>
   currentIndex (update (fix_at 1 2 3) GpsStabilityFilter_new) = 1 \<and>
   totalReadings (update (fix_at 1 2 3) GpsStabilityFilter_new) = 1 \<and>
   latReadings (update (fix_at 1 2 3) GpsStabilityFilter_new) ! 0 = 1"
proof -
  let ?gs = "map (\<lambda>x. fix_at x (- x) (2 * x))
       [1, 2, 3, 4, 5, 6, 7, 8, 9, 10, 11, 12, 13, 14, 15, 16, 17]"
  let ?f = "updates ?gs GpsStabilityFilter_new"
  have v: "(\<forall>x\<in>set ?gs. location_isValid x \<and> altitude_isValid x) \<and>
      GPS_FILTER_WINDOW_SIZE \<le> length ?gs"
    by (simp add: fix_at_def GPS_FILTER_WINDOW_SIZE_def)
  have g: "location_isValid (fix_at 1 2 3) \<and> altitude_isValid (fix_at 1 2 3)"
    by (simp add: fix_at_def)
  note many = ring_buffer_overwrite [of "fix_at 1 2 3" GpsStabilityFilter_new 1 ?gs 16,
      THEN conjunct2, THEN mp, OF v]
  note one = ring_buffer_overwrite [of "fix_at 1 2 3" GpsStabilityFilter_new 1 ?gs 16,
      THEN conjunct1, THEN mp, OF g]
  have n: "currentIndex GpsStabilityFilter_new = 0" "totalReadings GpsStabilityFilter_new = 0"
    "length (latReadings GpsStabilityFilter_new) = 12"
    by (simp_all add: GpsStabilityFilter_new_def GPS_FILTER_WINDOW_SIZE_def)
  have l1: "length ?gs = 17" by simp
  have l2: "location_lat (?gs ! 16) = 17" by (simp add: fix_at_def)
  have l3: "location_lat (fix_at 1 2 3) = 1" by (simp add: fix_at_def)
  have l4: "map location_lat (drop (length ?gs - GPS_FILTER_WINDOW_SIZE) ?gs) =
       [6, 7, 8, 9, 10, 11, 12, 13, 14, 15, 16, 17]"
    by (simp add: fix_at_def GPS_FILTER_WINDOW_SIZE_def)
  have a: "getTotalReadings ?f = 12"
    using many [THEN conjunct1] by (simp only: GPS_FILTER_WINDOW_SIZE_def)
  have b: "currentIndex ?f = 5"
    using many [THEN conjunct2, THEN conjunct1] unfolding l1
    by (simp only: GPS_FILTER_WINDOW_SIZE_def) simp
  have c: "latReadings ?f ! 4 = 17"
    using many [THEN conjunct2, THEN conjunct2, THEN conjunct2, THEN conjunct2, THEN conjunct2,
        THEN conjunct1] unfolding l1 l2
    by (simp only: GPS_FILTER_WINDOW_SIZE_def) simp
  have d: "mset (latReadings ?f) = mset [6, 7, 8, 9, 10, 11, 12, 13, 14, 15, 16, 17]"
    using many [THEN conjunct2, THEN conjunct2, THEN conjunct2, THEN conjunct2, THEN conjunct2,
        THEN conjunct2, THEN conjunct1]
    by (simp only: l4)
  have e: "currentIndex (update (fix_at 1 2 3) GpsStabilityFilter_new) = 1"
    using one [THEN conjunct1] by (simp add: n GPS_FILTER_WINDOW_SIZE_def)
  have f: "totalReadings (update (fix_at 1 2 3) GpsStabilityFilter_new) = 1"
    using one [THEN conjunct2, THEN conjunct1] by (simp add: n GPS_FILTER_WINDOW_SIZE_def)
  have h: "latReadings (update (fix_at 1 2 3) GpsStabilityFilter_new) ! 0 = 1"
    using one [THEN conjunct2, THEN conjunct2, THEN conjunct1] by (simp add: n l3)
  show ?thesis
    using a b c d e f h by blast
qed

subsection \<open>Sorting and the trimmed mean\<close>

lemma sortFloatArray_inner_done:
  "\<not> j < b \<Longrightarrow> sortFloatArray_inner arr j b = arr"
  by (subst sortFloatArray_inner.simps) simp

lemma sortFloatArray_inner_step:
  "j < b \<Longrightarrow> sortFloatArray_inner arr j b =
     sortFloatArray_inner
       (if arr ! j > arr ! (j + 1) then arr[j := arr ! (j + 1), j + 1 := arr ! j] else arr)
       (Suc j) b"
  by (subst sortFloatArray_inner.simps) simp

lemma sortFloatArray_inner_length:
  "length (sortFloatArray_inner arr j b) = length arr"
proof (induction "b - j" arbitrary: arr j)
  case 0
  then show ?case by (simp add: sortFloatArray_inner_done)
next
  case (Suc k)
  then have "j < b" "k = b - Suc j" by simp_all
  then show ?case
    using Suc.hyps(1) [of "Suc j"] by (simp add: sortFloatArray_inner_step)
qed

lemma sortFloatArray_inner_mset:
  "b < length arr \<Longrightarrow> mset (sortFloatArray_inner arr j b) = mset arr"
proof (induction "b - j" arbitrary: arr j)
  case 0
  then show ?case by (simp add: sortFloatArray_inner_done)
next
  case (Suc k)
  then have jb: "j < b" and k: "k = b - Suc j" by simp_all
  have sw: "mset (arr[j := arr ! (j + 1), j + 1 := arr ! j]) = mset arr"
    using jb Suc.prems by (intro mset_swap) simp_all
  show ?case
    using Suc.hyps(1) [OF k] Suc.prems sw by (simp add: sortFloatArray_inner_step [OF jb])
qed

lemma sortFloatArray_inner_above:
  "b < k \<Longrightarrow> sortFloatArray_inner arr j b ! k = arr ! k"
proof (induction "b - j" arbitrary: arr j)
  case 0
  then show ?case by (simp add: sortFloatArray_inner_done)
next
  case (Suc n)
  then have jb: "j < b" and n: "n = b - Suc j" by simp_all
  show ?case
    using Suc.hyps(1) [OF n Suc.prems] jb Suc.prems
    by (simp add: sortFloatArray_inner_step [OF jb])
qed

lemma sortFloatArray_inner_max:
  assumes "b < length arr" "j \<le> b" "\<forall>k<j. arr ! k \<le> arr ! j"
  shows "\<forall>k<b. sortFloatArray_inner arr j b ! k \<le> sortFloatArray_inner arr j b ! b"
  using assms
proof (induction "b - j" arbitrary: arr j)
  case 0
  then have "j = b" by simp
  then show ?case using 0 by (simp add: sortFloatArray_inner_done)
next
  case (Suc n)
  then have jb: "j < b" and n: "n = b - Suc j" by simp_all
  let ?arr' = "if arr ! j > arr ! (j + 1) then arr[j := arr ! (j + 1), j + 1 := arr ! j] else arr"
  have len: "b < length ?arr'" using Suc.prems(1) by simp
  have pre: "\<forall>k<Suc j. ?arr' ! k \<le> ?arr' ! Suc j"
  proof (intro allI impI)
    fix k assume "k < Suc j"
    then consider "k < j" | "k = j" by linarith
    then show "?arr' ! k \<le> ?arr' ! Suc j"
    proof cases
      case 1
      then have "arr ! k \<le> arr ! j" using Suc.prems(3) by simp
      then show ?thesis using 1 jb Suc.prems(1) by auto
    next
      case 2
      then show ?thesis using jb Suc.prems(1) by auto
    qed
  qed
  have "\<forall>k<b. sortFloatArray_inner ?arr' (Suc j) b ! k \<le> sortFloatArray_inner ?arr' (Suc j) b ! b"
    using jb by (intro Suc.hyps(1) [OF n len _ pre]) simp
  then show ?case by (simp only: sortFloatArray_inner_step [OF jb])
qed

lemma sortFloatArray_inner_drop:
  "drop (Suc b) (sortFloatArray_inner arr j b) = drop (Suc b) arr"
  by (rule nth_equalityI)
     (simp_all add: sortFloatArray_inner_length sortFloatArray_inner_above)

lemma sortFloatArray_inner_take_mset:
  assumes "b < length arr"
  shows "mset (take (Suc b) (sortFloatArray_inner arr j b)) = mset (take (Suc b) arr)"
proof -
  let ?res = "sortFloatArray_inner arr j b"
  have "mset (take (Suc b) ?res) + mset (drop (Suc b) ?res) = mset ?res"
    by (metis append_take_drop_id mset_append)
  also have "\<dots> = mset (take (Suc b) arr) + mset (drop (Suc b) arr)"
    by (metis sortFloatArray_inner_mset [OF assms] append_take_drop_id mset_append)
  finally show ?thesis by (simp add: sortFloatArray_inner_drop)
qed

lemma sortFloatArray_outer_done:
  "\<not> i + 1 < n \<Longrightarrow> sortFloatArray_outer arr i n = arr"
  by (subst sortFloatArray_outer.simps) simp

lemma sortFloatArray_outer_step:
  "i + 1 < n \<Longrightarrow> sortFloatArray_outer arr i n =
     sortFloatArray_outer (sortFloatArray_inner arr 0 (n - Suc i)) (Suc i) n"
  by (subst sortFloatArray_outer.simps) simp

lemma sortFloatArray_outer_mset:
  "length arr = n \<Longrightarrow> mset (sortFloatArray_outer arr i n) = mset arr"
proof (induction "n - i" arbitrary: arr i)
  case 0
  then show ?case by (simp add: sortFloatArray_outer_done)
next
  case (Suc k)
  show ?case
  proof (cases "i + 1 < n")
    case True
    have k: "k = n - Suc i" using Suc.hyps(2) by simp
    have b: "n - Suc i < length arr" using True Suc.prems by simp
    have "mset (sortFloatArray_outer (sortFloatArray_inner arr 0 (n - Suc i)) (Suc i) n) =
        mset (sortFloatArray_inner arr 0 (n - Suc i))"
      using Suc.prems by (intro Suc.hyps(1) [OF k]) (simp add: sortFloatArray_inner_length)
    then show ?thesis
      by (simp add: sortFloatArray_outer_step [OF True] sortFloatArray_inner_mset [OF b])
  next
    case False
    then show ?thesis by (simp add: sortFloatArray_outer_done)
  qed
qed

lemma sortFloatArray_outer_sorted:
  assumes "length arr = n" "i + 1 \<le> n"
    and "sorted (drop (n - i) arr)"
    and "\<forall>x\<in>set (take (n - i) arr). \<forall>y\<in>set (drop (n - i) arr). x \<le> y"
  shows "sorted (sortFloatArray_outer arr i n)"
  using assms
proof (induction "n - i" arbitrary: arr i)
  case 0
  then show ?case by simp
next
  case (Suc k)
  show ?case
  proof (cases "i + 1 < n")
    case True
    let ?b = "n - Suc i"
    let ?res = "sortFloatArray_inner arr 0 ?b"
    have k: "k = n - Suc i" using Suc.hyps(2) by simp
    have b: "?b < length arr" using True Suc.prems(1) by simp
    have sb: "Suc ?b = n - i" using True by simp
    have len: "length ?res = n" using Suc.prems(1) by (simp add: sortFloatArray_inner_length)
    have dr: "drop (n - i) ?res = drop (n - i) arr"
      using sortFloatArray_inner_drop [of ?b arr 0] by (simp only: sb)
    have tk: "set (take (n - i) ?res) = set (take (n - i) arr)"
      using sortFloatArray_inner_take_mset [OF b, of 0] by (simp only: sb) (rule mset_eq_setD)
    have mx: "\<forall>k<?b. ?res ! k \<le> ?res ! ?b"
      by (rule sortFloatArray_inner_max [OF b]) simp_all
    have top: "?res ! ?b \<in> set (take (n - i) ?res)"
      using True len by (simp add: in_set_conv_nth) (metis sb lessI nth_take)
    have d: "drop ?b ?res = ?res ! ?b # drop (n - i) arr"
      using b len Suc.prems(1) dr by (metis Cons_nth_drop_Suc sb)
    have s1: "sorted (drop (n - Suc i) ?res)"
      using d top tk Suc.prems(3,4) by (simp del: drop_Suc_Cons) 
    have lo: "set (take ?b ?res) \<subseteq> set (take (n - i) ?res)"
      by (metis sb set_take_subset_set_take le_SucI order_refl)
    have s2: "\<forall>x\<in>set (take (n - Suc i) ?res). \<forall>y\<in>set (drop (n - Suc i) ?res). x \<le> y"
    proof (intro ballI)
      fix x y assume x: "x \<in> set (take (n - Suc i) ?res)" and y: "y \<in> set (drop (n - Suc i) ?res)"
      from x obtain p where p: "p < ?b" "x = ?res ! p"
        using len by (auto simp: in_set_conv_nth)
      from y have "y = ?res ! ?b \<or> y \<in> set (drop (n - i) arr)" using d by auto
      then show "x \<le> y"
      proof
        assume "y = ?res ! ?b"
        then show ?thesis using mx p by simp
      next
        assume "y \<in> set (drop (n - i) arr)"
        moreover have "x \<in> set (take (n - i) arr)" using x lo tk by auto
        ultimately show ?thesis using Suc.prems(4) by blast
      qed
    qed
    have "sorted (sortFloatArray_outer ?res (Suc i) n)"
      using True by (intro Suc.hyps(1) [OF k len _ s1 s2]) simp
    then show ?thesis by (simp add: sortFloatArray_outer_step [OF True])
  next
    case False
    then have ni: "n - i = 1" using Suc.prems(2) by simp
    have "arr = take 1 arr @ drop 1 arr" by simp
    moreover have "sorted (take 1 arr @ drop 1 arr)"
      using Suc.prems(3,4) unfolding ni
      by (subst sorted_append) (auto simp: take_Suc_conv_app_nth sorted01 intro: sorted01)
    ultimately have "sorted arr" by simp
    then show ?thesis using False by (simp add: sortFloatArray_outer_done)
  qed
qed

lemma sortFloatArray_sort: "sortFloatArray arr (length arr) = sort arr"
proof (rule sym, rule properties_for_sort)
  show "mset (sortFloatArray arr (length arr)) = mset arr"
    by (simp add: sortFloatArray_def sortFloatArray_outer_mset)
  show "sorted (sortFloatArray arr (length arr))"
  proof (cases "1 \<le> length arr")
    case True
    then show ?thesis
      unfolding sortFloatArray_def
      by (intro sortFloatArray_outer_sorted) simp_all
  next
    case False
    then have "arr = []" by (cases arr) simp_all
    then show ?thesis by (simp add: sortFloatArray_def sortFloatArray_outer_done)
  qed
qed

lemma sum_loop_eq:
  "endIndex \<le> length wb \<Longrightarrow>
     sum_loop wb i endIndex sm cnt =
       (foldl float_add sm (take (endIndex - i) (drop i wb)), cnt + (endIndex - i))"
proof (induction "endIndex - i" arbitrary: i sm cnt)
  case 0
  then show ?case by (subst sum_loop.simps) simp
next
  case (Suc k)
  then have lt: "i < endIndex" and k: "k = endIndex - Suc i" by simp_all
  have il: "i < length wb" using lt Suc.prems by simp
  have tk: "take (endIndex - i) (drop i wb) = wb ! i # take (endIndex - Suc i) (drop (Suc i) wb)"
    using lt il by (metis Cons_nth_drop_Suc Suc_diff_Suc take_Suc_Cons)
  have "sum_loop wb i endIndex sm cnt =
      sum_loop wb (Suc i) endIndex (float_add sm (wb ! i)) (cnt + 1)"
    using lt by (subst sum_loop.simps) simp
  also have "\<dots> = (foldl float_add (float_add sm (wb ! i))
      (take (endIndex - Suc i) (drop (Suc i) wb)), cnt + 1 + (endIndex - Suc i))"
    by (rule Suc.hyps(1) [OF k Suc.prems])
  also have "\<dots> = (foldl float_add sm (take (endIndex - i) (drop i wb)), cnt + (endIndex - i))"
    using lt by (simp add: tk)
  finally show ?case .
qed

lemma filterReadings_trimmed_mean:
  assumes "1 \<le> n" "n \<le> length readings"
  shows "filterReadings readings n raw = float_trimmed_mean (take n readings)"
proof -
  let ?xs = "take n readings"
  let ?k = "if n > 5 then n div 5 else 0"
  have len: "length ?xs = n" using assms by simp
  have srt: "sortFloatArray ?xs n = sort ?xs"
    using sortFloatArray_sort [of ?xs] by (simp only: len)
  have k2: "2 * ?k < n" using assms(1) by auto
  have e: "(if n > 5 then n - ?k else n) = n - ?k" by simp
  have le: "n - ?k \<le> length (sort ?xs)" using len by simp
  have sp: "spec_trimmed ?xs = take (n - 2 * ?k) (drop ?k (sort ?xs))"
    unfolding spec_trimmed_def Let_def len by simp
  have sl: "sum_loop (sort ?xs) ?k (n - ?k) 0 0 =
      (foldl float_add 0 (spec_trimmed ?xs), n - 2 * ?k)"
    using sum_loop_eq [OF le, of ?k 0 0] unfolding sp by (simp add: mult_2)
  have lk: "length (spec_trimmed ?xs) = n - 2 * ?k"
    unfolding sp using len by auto
  have "filterReadings readings n raw =
      float_div (foldl float_add 0 (spec_trimmed ?xs)) (real (n - 2 * ?k))"
    unfolding filterReadings_def srt Let_def e sl using k2 by simp
  also have "\<dots> = float_trimmed_mean ?xs"
    unfolding float_trimmed_mean_def lk by simp
  finally show ?thesis .
qed

lemma spec_trimmed_mset: "mset xs = mset ys \<Longrightarrow> spec_trimmed xs = spec_trimmed ys"
proof -
  assume m: "mset xs = mset ys"
  then have "length xs = length ys" by (rule mset_eq_length)
  moreover have "sort xs = sort ys"
    by (rule properties_for_sort) (simp_all add: m)
  ultimately show ?thesis by (simp add: spec_trimmed_def)
qed

lemma trimmed_mean_mset:
  "mset xs = mset ys \<Longrightarrow> float_trimmed_mean xs = float_trimmed_mean ys"
  by (simp add: float_trimmed_mean_def spec_trimmed_mset [of xs ys])

lemma ring_live_samples:
  assumes inv: "ring_inv gs f" and len: "length buf = GPS_FILTER_WINDOW_SIZE"
    and idx: "\<And>j. j < length gs \<Longrightarrow> length gs \<le> j + GPS_FILTER_WINDOW_SIZE \<Longrightarrow>
        buf ! (j mod GPS_FILTER_WINDOW_SIZE) = smp (gs ! j)"
  shows "mset (take (totalReadings f) buf) =
         mset (map smp (drop (length gs - GPS_FILTER_WINDOW_SIZE) gs))"
proof (cases "GPS_FILTER_WINDOW_SIZE \<le> length gs")
  case True
  then have "totalReadings f = GPS_FILTER_WINDOW_SIZE" using inv by (simp add: ring_inv_def)
  then have "take (totalReadings f) buf = buf" using len by simp
  then show ?thesis using ring_mset [OF len True idx] by simp
next
  case False
  then have t: "totalReadings f = length gs" using inv by (simp add: ring_inv_def)
  have "take (length gs) buf = map smp gs"
  proof (rule nth_equalityI)
    show "length (take (length gs) buf) = length (map smp gs)" using False len by simp
    fix j assume "j < length (take (length gs) buf)"
    then have j: "j < length gs" by simp
    then have "j mod GPS_FILTER_WINDOW_SIZE = j" "length gs \<le> j + GPS_FILTER_WINDOW_SIZE"
      using False by simp_all
    then show "take (length gs) buf ! j = map smp gs ! j"
      using idx [of j] j by simp
  qed
  then show ?thesis using False t by simp
qed

text \<open>
  Claim C4, on the code. With \<open>n\<close> collected samples, \<open>3 \<le> n \<le> W\<close>, and the GPS module
  reporting the data of the channel as valid at the call (the location for latitude and
  longitude, the altitude for the altitude), each getter returns the trimmed mean of the
  \<open>n\<close> live samples of its channel (the first \<open>n\<close> cells of its buffer), computed in
  \<open>float\<close> arithmetic: the samples sorted ascending, the lowest and the highest
  \<open>n div 5\<close> dropped when \<open>n > 5\<close>, none dropped when \<open>n \<le> 5\<close>, the rest added one by one
  to \<open>0.0\<close> and the sum divided by their number, each operation rounded to binary32. For
  a filter fed the valid readings \<open>gs\<close>, the live samples are the last \<open>W\<close> of them.
  \<open>sortFloatArray\<close> sorts: its result is \<open>sort\<close> of its input. Feeding the latitudes 1
  to 12 yields 6.5.
\<close>

theorem getFiltered_trimmed_mean:
  "(GPS_FILTER_MIN_READINGS \<le> totalReadings f \<and> totalReadings f \<le> GPS_FILTER_WINDOW_SIZE \<and>
    length (latReadings f) = GPS_FILTER_WINDOW_SIZE \<and> location_isValid g \<longrightarrow>
      getFilteredLatitude g f = float_trimmed_mean (take (totalReadings f) (latReadings f))) \<and>
   (GPS_FILTER_MIN_READINGS \<le> totalReadings f \<and> totalReadings f \<le> GPS_FILTER_WINDOW_SIZE \<and>
    length (lonReadings f) = GPS_FILTER_WINDOW_SIZE \<and> location_isValid g \<longrightarrow>
      getFilteredLongitude g f = float_trimmed_mean (take (totalReadings f) (lonReadings f))) \<and>
   (GPS_FILTER_MIN_READINGS \<le> totalReadings f \<and> totalReadings f \<le> GPS_FILTER_WINDOW_SIZE \<and>
    length (altReadings f) = GPS_FILTER_WINDOW_SIZE \<and> altitude_isValid g \<longrightarrow>
      getFilteredAltitude g f = float_trimmed_mean (take (totalReadings f) (altReadings f))) \<and>
   ((\<forall>x\<in>set gs. location_isValid x \<and> altitude_isValid x) \<and>
    GPS_FILTER_MIN_READINGS \<le> length gs \<longrightarrow>
      (location_isValid g \<longrightarrow>
         getFilteredLatitude g (updates gs GpsStabilityFilter_new) =
           float_trimmed_mean (map location_lat (drop (length gs - GPS_FILTER_WINDOW_SIZE) gs)) \<and>
         getFilteredLongitude g (updates gs GpsStabilityFilter_new) =
           float_trimmed_mean (map location_lng (drop (length gs - GPS_FILTER_WINDOW_SIZE) gs))) \<and>
      (altitude_isValid g \<longrightarrow>
         getFilteredAltitude g (updates gs GpsStabilityFilter_new) =
           float_trimmed_mean (map altitude_feet (drop (length gs - GPS_FILTER_WINDOW_SIZE) gs)))) \<and>
   sortFloatArray xs (length xs) = sort xs \<and>
   getFilteredLatitude (fix_at 12 0 0)
     (updates (map (\<lambda>x. fix_at x 0 0) [1, 2, 3, 4, 5, 6, 7, 8, 9, 10, 11, 12])
        GpsStabilityFilter_new) = 6.5"
proof -
  have live: "filterReadings buf (totalReadings f) raw =
      float_trimmed_mean (take (totalReadings f) buf)"
    if "GPS_FILTER_MIN_READINGS \<le> totalReadings f" "totalReadings f \<le> GPS_FILTER_WINDOW_SIZE"
      "length buf = GPS_FILTER_WINDOW_SIZE" for buf raw
    using that by (intro filterReadings_trimmed_mean) (simp_all add: GPS_FILTER_MIN_READINGS_def)
  have c1: "getFilteredLatitude g f = float_trimmed_mean (take (totalReadings f) (latReadings f))"
    if "GPS_FILTER_MIN_READINGS \<le> totalReadings f \<and> totalReadings f \<le> GPS_FILTER_WINDOW_SIZE \<and>
      length (latReadings f) = GPS_FILTER_WINDOW_SIZE \<and> location_isValid g"
    using that by (simp add: getFilteredLatitude_def live)
  have c2: "getFilteredLongitude g f = float_trimmed_mean (take (totalReadings f) (lonReadings f))"
    if "GPS_FILTER_MIN_READINGS \<le> totalReadings f \<and> totalReadings f \<le> GPS_FILTER_WINDOW_SIZE \<and>
      length (lonReadings f) = GPS_FILTER_WINDOW_SIZE \<and> location_isValid g"
    using that by (simp add: getFilteredLongitude_def live)
  have c3: "getFilteredAltitude g f = float_trimmed_mean (take (totalReadings f) (altReadings f))"
    if "GPS_FILTER_MIN_READINGS \<le> totalReadings f \<and> totalReadings f \<le> GPS_FILTER_WINDOW_SIZE \<and>
      length (altReadings f) = GPS_FILTER_WINDOW_SIZE \<and> altitude_isValid g"
    using that by (simp add: getFilteredAltitude_def live)
  have c4: "(location_isValid g \<longrightarrow>
         getFilteredLatitude g (updates gs GpsStabilityFilter_new) =
           float_trimmed_mean (map location_lat (drop (length gs - GPS_FILTER_WINDOW_SIZE) gs)) \<and>
         getFilteredLongitude g (updates gs GpsStabilityFilter_new) =
           float_trimmed_mean (map location_lng (drop (length gs - GPS_FILTER_WINDOW_SIZE) gs))) \<and>
      (altitude_isValid g \<longrightarrow>
         getFilteredAltitude g (updates gs GpsStabilityFilter_new) =
           float_trimmed_mean (map altitude_feet (drop (length gs - GPS_FILTER_WINDOW_SIZE) gs)))"
    if h: "(\<forall>x\<in>set gs. location_isValid x \<and> altitude_isValid x) \<and>
      GPS_FILTER_MIN_READINGS \<le> length gs"
  proof -
    let ?f = "updates gs GpsStabilityFilter_new"
    have inv: "ring_inv gs ?f" using h by (simp add: ring_inv_updates)
    have t: "totalReadings ?f = min (length gs) GPS_FILTER_WINDOW_SIZE"
      and len: "length (latReadings ?f) = GPS_FILTER_WINDOW_SIZE"
        "length (lonReadings ?f) = GPS_FILTER_WINDOW_SIZE"
        "length (altReadings ?f) = GPS_FILTER_WINDOW_SIZE"
      using inv by (simp_all add: ring_inv_def)
    have m: "GPS_FILTER_MIN_READINGS \<le> totalReadings ?f"
      using h t by (simp add: GPS_FILTER_MIN_READINGS_def GPS_FILTER_WINDOW_SIZE_def)
    have n: "1 \<le> totalReadings ?f" using m by (simp add: GPS_FILTER_MIN_READINGS_def)
    have u: "totalReadings ?f \<le> GPS_FILTER_WINDOW_SIZE" using t by simp
    have idx: "latReadings ?f ! (k mod GPS_FILTER_WINDOW_SIZE) = location_lat (gs ! k) \<and>
       lonReadings ?f ! (k mod GPS_FILTER_WINDOW_SIZE) = location_lng (gs ! k) \<and>
       altReadings ?f ! (k mod GPS_FILTER_WINDOW_SIZE) = altitude_feet (gs ! k)"
      if "k < length gs" "length gs \<le> k + GPS_FILTER_WINDOW_SIZE" for k
      using inv that by (simp add: ring_inv_def)
    have la: "float_trimmed_mean (take (totalReadings ?f) (latReadings ?f)) =
        float_trimmed_mean (map location_lat (drop (length gs - GPS_FILTER_WINDOW_SIZE) gs))"
      by (intro trimmed_mean_mset ring_live_samples [OF inv len(1)]) (simp add: idx)
    have lo: "float_trimmed_mean (take (totalReadings ?f) (lonReadings ?f)) =
        float_trimmed_mean (map location_lng (drop (length gs - GPS_FILTER_WINDOW_SIZE) gs))"
      by (intro trimmed_mean_mset ring_live_samples [OF inv len(2)]) (simp add: idx)
    have al: "float_trimmed_mean (take (totalReadings ?f) (altReadings ?f)) =
        float_trimmed_mean (map altitude_feet (drop (length gs - GPS_FILTER_WINDOW_SIZE) gs))"
      by (intro trimmed_mean_mset ring_live_samples [OF inv len(3)]) (simp add: idx)
    have f1: "filterReadings buf (totalReadings ?f) raw =
        float_trimmed_mean (take (totalReadings ?f) buf)"
      if "length buf = GPS_FILTER_WINDOW_SIZE" for buf raw
      using that u by (intro filterReadings_trimmed_mean [OF n]) simp
    show ?thesis
      using m la lo al by (simp add: getFilteredLatitude_def getFilteredLongitude_def
          getFilteredAltitude_def f1 len)
  qed
  have c5: "sortFloatArray xs (length xs) = sort xs" by (rule sortFloatArray_sort)
  have c6: "getFilteredLatitude (fix_at 12 0 0)
     (updates (map (\<lambda>x. fix_at x 0 0) [1, 2, 3, 4, 5, 6, 7, 8, 9, 10, 11, 12])
        GpsStabilityFilter_new) = 6.5"
    by code_simp
  show ?thesis using c1 c2 c3 c4 c5 c6 by blast
qed

text \<open>
  The witness: 17 readings out of order, with negative values and two outliers in the
  last 12 (the longitudes are the negated latitudes, the altitudes the doubled ones), and
  a filter holding 4 samples; the latitude and longitude getters are called with a module
  that reports a valid location and an invalid altitude.
\<close>

theorem getFiltered_trimmed_mean_witness:
  "getFilteredLatitude
     \<lparr>location_isValid = True, location_lat = 1, location_lng = 1,
      altitude_isValid = False, altitude_feet = 1\<rparr>
     (updates (map (\<lambda>x. fix_at x (- x) (2 * x))
        [5, - 3, 12, 7, 1, 9, 2, 8, 4, 10, 6, 11, 3, 100, - 50, 0, 13]) GpsStabilityFilter_new)
     = 53 / 8 \<and>
   getFilteredLongitude
     \<lparr>location_isValid = True, location_lat = 1, location_lng = 1,
      altitude_isValid = False, altitude_feet = 1\<rparr>
     (updates (map (\<lambda>x. fix_at x (- x) (2 * x))
        [5, - 3, 12, 7, 1, 9, 2, 8, 4, 10, 6, 11, 3, 100, - 50, 0, 13]) GpsStabilityFilter_new)
     = - 53 / 8 \<and>
   getFilteredAltitude (fix_at 1 1 1)
     (updates (map (\<lambda>x. fix_at x (- x) (2 * x))
        [5, - 3, 12, 7, 1, 9, 2, 8, 4, 10, 6, 11, 3, 100, - 50, 0, 13]) GpsStabilityFilter_new)
     = 53 / 4 \<and>
   totalReadings (updates (map (\<lambda>x. fix_at x (- x) (2 * x)) [4, - 2, 6, 0])
     GpsStabilityFilter_new) = 4 \<and>
   getFilteredLatitude
     \<lparr>location_isValid = True, location_lat = 1, location_lng = 1,
      altitude_isValid = False, altitude_feet = 1\<rparr>
     (updates (map (\<lambda>x. fix_at x (- x) (2 * x)) [4, - 2, 6, 0]) GpsStabilityFilter_new) = 2 \<and>
   getFilteredLongitude
     \<lparr>location_isValid = True, location_lat = 1, location_lng = 1,
      altitude_isValid = False, altitude_feet = 1\<rparr>
     (updates (map (\<lambda>x. fix_at x (- x) (2 * x)) [4, - 2, 6, 0]) GpsStabilityFilter_new) = - 2 \<and>
   getFilteredAltitude (fix_at 1 1 1)
     (updates (map (\<lambda>x. fix_at x (- x) (2 * x)) [4, - 2, 6, 0]) GpsStabilityFilter_new) = 4"
proof -
  let ?gs = "map (\<lambda>x. fix_at x (- x) (2 * x))
        [5, - 3, 12, 7, 1, 9, 2, 8, 4, 10, 6, 11, 3, 100, - 50, 0, 13]"
  let ?f = "updates (map (\<lambda>x. fix_at x (- x) (2 * x)) [4, - 2, 6, 0]) GpsStabilityFilter_new"
  let ?loc = "\<lparr>location_isValid = True, location_lat = 1, location_lng = 1,
      altitude_isValid = False, altitude_feet = 1\<rparr>"
  let ?W = GPS_FILTER_WINDOW_SIZE
  have v: "(\<forall>x\<in>set ?gs. location_isValid x \<and> altitude_isValid x) \<and>
      GPS_FILTER_MIN_READINGS \<le> length ?gs"
    by (simp add: fix_at_def GPS_FILTER_MIN_READINGS_def)
  have vl: "location_isValid ?loc" by simp
  have va: "altitude_isValid (fix_at 1 1 1)" by (simp add: fix_at_def)
  have t: "totalReadings ?f = 4" by code_simp
  have w: "GPS_FILTER_MIN_READINGS \<le> totalReadings ?f" "totalReadings ?f \<le> ?W"
    "length (latReadings ?f) = ?W" "length (lonReadings ?f) = ?W" "length (altReadings ?f) = ?W"
    by code_simp+
  note loc = getFiltered_trimmed_mean [of ?f ?loc ?gs "[]"]
  note alt = getFiltered_trimmed_mean [of ?f "fix_at 1 1 1" ?gs "[]"]
  note fed_loc = loc [THEN conjunct2, THEN conjunct2, THEN conjunct2, THEN conjunct1, THEN mp,
      OF v, THEN conjunct1, THEN mp, OF vl]
  note fed_alt = alt [THEN conjunct2, THEN conjunct2, THEN conjunct2, THEN conjunct1, THEN mp,
      OF v, THEN conjunct2, THEN mp, OF va]
  have m1: "float_trimmed_mean (map location_lat (drop (length ?gs - ?W) ?gs)) = 53 / 8"
    by code_simp
  have m2: "float_trimmed_mean (map location_lng (drop (length ?gs - ?W) ?gs)) = - 53 / 8"
    by code_simp
  have m3: "float_trimmed_mean (map altitude_feet (drop (length ?gs - ?W) ?gs)) = 53 / 4"
    by code_simp
  have m4: "float_trimmed_mean (take (totalReadings ?f) (latReadings ?f)) = 2"
    by code_simp
  have m5: "float_trimmed_mean (take (totalReadings ?f) (lonReadings ?f)) = - 2"
    by code_simp
  have m6: "float_trimmed_mean (take (totalReadings ?f) (altReadings ?f)) = 4"
    by code_simp
  have a: "getFilteredLatitude ?loc (updates ?gs GpsStabilityFilter_new) = 53 / 8"
    using fed_loc [THEN conjunct1] by (simp only: m1)
  have b: "getFilteredLongitude ?loc (updates ?gs GpsStabilityFilter_new) = - 53 / 8"
    using fed_loc [THEN conjunct2] by (simp only: m2)
  have c: "getFilteredAltitude (fix_at 1 1 1) (updates ?gs GpsStabilityFilter_new) = 53 / 4"
    using fed_alt by (simp only: m3)
  have d: "getFilteredLatitude ?loc ?f = 2"
    using loc [THEN conjunct1, THEN mp, OF conjI [OF w(1) conjI [OF w(2) conjI [OF w(3) vl]]]]
    by (simp only: m4)
  have e: "getFilteredLongitude ?loc ?f = - 2"
    using loc [THEN conjunct2, THEN conjunct1, THEN mp, OF conjI [OF w(1) conjI [OF w(2) conjI [OF w(4) vl]]]]
    by (simp only: m5)
  have g: "getFilteredAltitude (fix_at 1 1 1) ?f = 4"
    using alt [THEN conjunct2, THEN conjunct2, THEN conjunct1, THEN mp,
        OF conjI [OF w(1) conjI [OF w(2) conjI [OF w(5) va]]]]
    by (simp only: m6)
  show ?thesis using a b c t d e g by blast
qed

text \<open>
  The claim as it is worded fails in two ways. With three samples buffered and a module
  that reports its location as invalid, \<open>getFilteredLatitude\<close> returns the raw value 7,
  not the mean 2 of the samples. With the samples 1, 2, 2 and a valid module it returns
  the \<open>float\<close> quotient of 5 and 3, not the arithmetic mean \<open>5 / 3\<close>.
\<close>

theorem getFiltered_not_arithmetic_mean:
  "GPS_FILTER_MIN_READINGS \<le> totalReadings
     (updates [fix_at 1 10 100, fix_at 2 20 200, fix_at 3 30 300] GpsStabilityFilter_new) \<and>
   totalReadings
     (updates [fix_at 1 10 100, fix_at 2 20 200, fix_at 3 30 300] GpsStabilityFilter_new)
     \<le> GPS_FILTER_WINDOW_SIZE \<and>
   getFilteredLatitude
     \<lparr>location_isValid = False, location_lat = 7, location_lng = 8,
      altitude_isValid = False, altitude_feet = 9\<rparr>
     (updates [fix_at 1 10 100, fix_at 2 20 200, fix_at 3 30 300] GpsStabilityFilter_new) = 7 \<and>
   spec_trimmed_mean
     (take (totalReadings
         (updates [fix_at 1 10 100, fix_at 2 20 200, fix_at 3 30 300] GpsStabilityFilter_new))
       (latReadings
         (updates [fix_at 1 10 100, fix_at 2 20 200, fix_at 3 30 300] GpsStabilityFilter_new)))
     = 2 \<and>
   totalReadings
     (updates [fix_at 1 0 0, fix_at 2 0 0, fix_at 2 0 0] GpsStabilityFilter_new) = 3 \<and>
   getFilteredLatitude (fix_at 2 0 0)
     (updates [fix_at 1 0 0, fix_at 2 0 0, fix_at 2 0 0] GpsStabilityFilter_new)
     = 13981013 / 8388608 \<and>
   spec_trimmed_mean
     (take (totalReadings
         (updates [fix_at 1 0 0, fix_at 2 0 0, fix_at 2 0 0] GpsStabilityFilter_new))
       (latReadings
         (updates [fix_at 1 0 0, fix_at 2 0 0, fix_at 2 0 0] GpsStabilityFilter_new)))
     = 5 / 3 \<and>
   getFilteredLatitude
     \<lparr>location_isValid = False, location_lat = 7, location_lng = 8,
      altitude_isValid = False, altitude_feet = 9\<rparr>
     (updates [fix_at 1 10 100, fix_at 2 20 200, fix_at 3 30 300] GpsStabilityFilter_new) \<noteq>
   spec_trimmed_mean
     (take (totalReadings
         (updates [fix_at 1 10 100, fix_at 2 20 200, fix_at 3 30 300] GpsStabilityFilter_new))
       (latReadings
         (updates [fix_at 1 10 100, fix_at 2 20 200, fix_at 3 30 300] GpsStabilityFilter_new))) \<and>
   getFilteredLatitude (fix_at 2 0 0)
     (updates [fix_at 1 0 0, fix_at 2 0 0, fix_at 2 0 0] GpsStabilityFilter_new) \<noteq>
   spec_trimmed_mean
     (take (totalReadings
         (updates [fix_at 1 0 0, fix_at 2 0 0, fix_at 2 0 0] GpsStabilityFilter_new))
       (latReadings
         (updates [fix_at 1 0 0, fix_at 2 0 0, fix_at 2 0 0] GpsStabilityFilter_new)))"
  by code_simp

end
